theory Spec2Isabelle
  imports Main "HOL-Library.Sublist"
begin

section \<open>Python strings\<close>

text \<open>
  A Python \<open>str\<close> is modelled as a \<open>string\<close>, each \<open>char\<close> standing for the code
  point of the same number (0 to 255). The two tables below are \<open>str.isspace\<close> and
  \<open>str.isalpha\<close> of CPython on these code points.
\<close>

definition py_isspace :: "char \<Rightarrow> bool" where
  "py_isspace c =
     (of_char c \<in> set [9, 10, 11, 12, 13, 28, 29, 30, 31, 32, 133, 160 :: nat])"

definition py_isalpha_char :: "char \<Rightarrow> bool" where
  "py_isalpha_char c =
     (let n = (of_char c :: nat)
      in (65 \<le> n \<and> n \<le> 90) \<or> (97 \<le> n \<and> n \<le> 122) \<or> n = 170 \<or> n = 181 \<or> n = 186 \<or>
         (192 \<le> n \<and> n \<le> 214) \<or> (216 \<le> n \<and> n \<le> 246) \<or> 248 \<le> n)"

text \<open>\<open>s.isalpha()\<close>: every character is alphabetic and there is at least one.\<close>

definition isalpha :: "string \<Rightarrow> bool" where
  "isalpha s = (s \<noteq> [] \<and> list_all py_isalpha_char s)"

text \<open>\<open>s.strip()\<close>: leading and trailing whitespace removed.\<close>

definition strip :: "string \<Rightarrow> string" where
  "strip s = rev (dropWhile py_isspace (rev (dropWhile py_isspace s)))"

text \<open>\<open>sub in s\<close> and \<open>s.startswith(p)\<close>.\<close>

definition contains :: "string \<Rightarrow> string \<Rightarrow> bool" where
  "contains sub s = sublist sub s"

definition startswith :: "string \<Rightarrow> string \<Rightarrow> bool" where
  "startswith s p = prefix p s"

section \<open>The parsed document\<close>

text \<open>
  What \<open>BeautifulSoup(response.text, 'html.parser')\<close> returns: a tree of tags, each with
  a name, its attributes and its contents, and of text nodes. A text node is a string
  that \<open>get_text\<close> reads; the tree has no node for comments and the like, which no
  operation of the scraper sees. The \<open>BeautifulSoup\<close> object is itself a tag, named
  \<open>[document]\<close>, which holds the top-level nodes.
\<close>

datatype node =
  Text string
| Tag string "(string \<times> string) list" "node list"

definition document :: "node list \<Rightarrow> node" where
  "document cs = Tag ''[document]'' [] cs"

text \<open>The strings below a node, in document order (\<open>_all_strings\<close>).\<close>

fun strings :: "node \<Rightarrow> string list" where
  "strings (Text s) = [s]"
| "strings (Tag n a cs) = concat (map strings cs)"

text \<open>\<open>tag.text\<close>, that is \<open>get_text()\<close>: the strings joined.\<close>

definition get_text :: "node \<Rightarrow> string" where
  "get_text e = concat (strings e)"

text \<open>
  \<open>get_text(strip=True)\<close>: each string is stripped, the empty ones are dropped and
  the rest are joined with the empty separator.
\<close>

definition get_text_strip :: "node \<Rightarrow> string" where
  "get_text_strip e = concat (filter (\<lambda>t. t \<noteq> []) (map strip (strings e)))"

text \<open>
  \<open>tag.descendants\<close>: every node below a tag, in document order, here paired with
  the name of its parent (\<open>element.parent.name\<close>).
\<close>

fun descendants :: "node \<Rightarrow> (string \<times> node) list" where
  "descendants (Text s) = []"
| "descendants (Tag n a cs) = concat (map (\<lambda>c. (n, c) # descendants c) cs)"

fun has_name :: "string list \<Rightarrow> node \<Rightarrow> bool" where
  "has_name names (Text s) = False"
| "has_name names (Tag n a cs) = (n \<in> set names)"

text \<open>\<open>tag.find_all(names)\<close>: the descendant tags with one of the names.\<close>

definition find_all :: "string list \<Rightarrow> node \<Rightarrow> (string \<times> node) list" where
  "find_all names root = filter (\<lambda>(p, e). has_name names e) (descendants root)"

text \<open>\<open>soup.title\<close> and \<open>soup.body\<close> are \<open>soup.find(name)\<close>: the first match or None.\<close>

definition find_first :: "string \<Rightarrow> node \<Rightarrow> node option" where
  "find_first nm root = (case find_all [nm] root of [] \<Rightarrow> None | (p, e) # rest \<Rightarrow> Some e)"

fun href_of :: "node \<Rightarrow> string option" where
  "href_of (Text s) = None"
| "href_of (Tag n a cs) = map_of a ''href''"

text \<open>
  \<open>soup.find_all('a', href=True)\<close>: the \<open>a\<close> tags that have an \<open>href\<close>, each
  with the value \<open>a_tag['href']\<close> that the loops read first.
\<close>

fun with_href :: "string \<times> node \<Rightarrow> (node \<times> string) list" where
  "with_href (p, e) = (case href_of e of None \<Rightarrow> [] | Some h \<Rightarrow> [(e, h)])"

definition find_all_a_href :: "node \<Rightarrow> (node \<times> string) list" where
  "find_all_a_href root = concat (map with_href (find_all [''a''] root))"

section \<open>Content extraction\<close>

record page_record =
  url :: string
  title :: string
  text_content :: "string list"
  code_blocks :: "string list"

definition text_tags :: "string list" where
  "text_tags = [''p'', ''h1'', ''h2'', ''h3'', ''h4'', ''h5'', ''h6'', ''li'']"

definition nav_tags :: "string list" where
  "nav_tags = [''nav'', ''header'', ''footer'']"

definition code_tags :: "string list" where
  "code_tags = [''pre'', ''code'']"

text \<open>The first loop of \<open>extract_keyword_content\<close>, over the matches and their parents.\<close>

fun text_content_loop :: "(string \<times> node) list \<Rightarrow> string list \<Rightarrow> string list" where
  "text_content_loop [] acc = acc"
| "text_content_loop ((parent, element) # rest) acc =
     (if parent \<in> set nav_tags then text_content_loop rest acc
      else let t = get_text_strip element
           in if t \<noteq> [] then text_content_loop rest (acc @ [t])
              else text_content_loop rest acc)"

text \<open>The second loop, over the \<open>pre\<close> and \<open>code\<close> matches.\<close>

fun code_blocks_loop :: "(string \<times> node) list \<Rightarrow> string list \<Rightarrow> string list" where
  "code_blocks_loop [] acc = acc"
| "code_blocks_loop ((parent, code) # rest) acc =
     (let code_text = get_text_strip code
      in if code_text \<noteq> [] then code_blocks_loop rest (acc @ [code_text])
         else code_blocks_loop rest acc)"

text \<open>The body of \<open>extract_keyword_content\<close> once the page has been fetched.\<close>

definition page_content :: "string \<Rightarrow> node \<Rightarrow> page_record" where
  "page_content u soup =
     (let ttl = (case find_first ''title'' soup of
                   Some t \<Rightarrow> strip (get_text t) | None \<Rightarrow> ''No title'')
      in case find_first ''body'' soup of
           None \<Rightarrow> \<lparr>url = u, title = ttl, text_content = [], code_blocks = []\<rparr>
         | Some main_content \<Rightarrow>
             \<lparr>url = u, title = ttl,
              text_content = text_content_loop (find_all text_tags main_content) [],
              code_blocks = code_blocks_loop (find_all code_tags main_content) []\<rparr>)"

text \<open>
  The extraction as the specification words it. The trimmed visible text of an element
  is its text, as a reader sees it, without the whitespace at its two ends. The text
  content is the trimmed visible text of the heading, paragraph and list-item elements
  below a root whose parent is not a navigation, header or footer element and whose
  trimmed text is not empty; the code blocks are the trimmed visible text of the
  \<open>pre\<close> and \<open>code\<close> elements below a root whose trimmed text is not empty.
\<close>

definition trimmed_visible_text :: "node \<Rightarrow> string" where
  "trimmed_visible_text e = strip (get_text e)"

definition spec_text_content :: "node \<Rightarrow> string list" where
  "spec_text_content root =
     filter (\<lambda>t. t \<noteq> [])
       (map (\<lambda>(p, e). trimmed_visible_text e)
          (filter (\<lambda>(p, e). p \<notin> set nav_tags) (find_all text_tags root)))"

definition spec_code_blocks :: "node \<Rightarrow> string list" where
  "spec_code_blocks root =
     filter (\<lambda>t. t \<noteq> []) (map (\<lambda>(p, e). trimmed_visible_text e) (find_all code_tags root))"

section \<open>The world outside the program\<close>

text \<open>
  \<open>requests\<close>, \<open>bs4\<close> and \<open>urllib.parse\<close> are libraries, not code of the scraper,
  so what they return is a parameter of the model.
  \<^item> \<open>requests_get w i u\<close> is what \<open>requests.get(u, timeout=10)\<close> does when \<open>i\<close>
    requests have been made before: it raises, or it returns a response. Of a response
    the scraper reads the status code and the text, and the text only through
    \<open>BeautifulSoup(response.text, 'html.parser')\<close>: the parsed document, or None when
    the parser raises. The same URL may answer differently at different times.
  \<^item> \<open>urljoin w\<close> and \<open>urlparse w\<close> are the two functions of \<open>urllib.parse\<close>; both
    raise \<open>ValueError\<close> on some inputs.
  The other exception of the model is the \<open>OSError\<close> of a file that cannot be opened
  or written.
\<close>

datatype request_error = ConnectionError | Timeout | TooManyRedirects

record response =
  status_code :: nat
  bs4_tree :: "node option"

datatype fetch_error = RequestFailed request_error | HTTPError nat | ParserRejected

datatype py_error = ValueError | OSError

record parse_result =
  scheme :: string
  netloc :: string
  path :: string
  params :: string
  query :: string
  fragment :: string

record world =
  requests_get :: "nat \<Rightarrow> string \<Rightarrow> request_error + response"
  urljoin :: "string \<Rightarrow> string \<Rightarrow> py_error + string"
  urlparse :: "string \<Rightarrow> py_error + parse_result"

text \<open>
  The body of the \<^verbatim>\<open>try\<close> block of \<open>fetch_page\<close>, as request number \<open>i\<close>: the
  exception it raises or the parsed document. \<open>response.raise_for_status()\<close> raises
  \<open>HTTPError\<close> for a status code from 400 to 599 and for no other.
\<close>

definition http :: "world \<Rightarrow> nat \<Rightarrow> string \<Rightarrow> fetch_error + node" where
  "http w i u =
     (case requests_get w i u of
        Inl e \<Rightarrow> Inl (RequestFailed e)
      | Inr r \<Rightarrow>
          if 400 \<le> status_code r \<and> status_code r < 600 then Inl (HTTPError (status_code r))
          else (case bs4_tree r of None \<Rightarrow> Inl ParserRejected | Some soup \<Rightarrow> Inr soup))"


section \<open>The scraper\<close>

text \<open>
  The fields of \<open>VFPDocScraper\<close>, and the requests made so far as the one effect of
  the crawl on the world: for each call of \<open>fetch_page\<close>, in order, which kind of page
  the caller asked for, the URL, and the visited set at that moment. The kind is the call
  site (\<open>scrape_alphabet_index\<close>, \<open>scrape_letter_page\<close> or \<open>extract_keyword_content\<close>)
  and is only recorded. The progress lines printed and the pauses of one second between
  requests change nothing in the state and are left out.
\<close>

datatype page_kind = IndexPage | LetterPage | KeywordPage

type_synonym request = "page_kind \<times> string \<times> string set"

record scraper =
  index_url :: string
  output_file :: string
  visited_urls :: "string set"
  results :: "page_record list"
  fetched :: "request list"

definition scraper_init :: "string \<Rightarrow> string \<Rightarrow> scraper" where
  "scraper_init iu out =
     \<lparr>index_url = iu, output_file = out, visited_urls = {}, results = [], fetched = []\<rparr>"

text \<open>\<open>fetch_page\<close>: any exception raised in the \<^verbatim>\<open>try\<close> block gives None.\<close>

definition fetch_page :: "world \<Rightarrow> scraper \<Rightarrow> page_kind \<Rightarrow> string \<Rightarrow> scraper \<times> node option" where
  "fetch_page w s k u =
     (let s' = s\<lparr>fetched := fetched s @ [(k, u, visited_urls s)]\<rparr>
      in case http w (length (fetched s)) u of
           Inl e \<Rightarrow> (s', None)
         | Inr soup \<Rightarrow> (s', Some soup))"

definition extract_keyword_content ::
  "world \<Rightarrow> scraper \<Rightarrow> string \<Rightarrow> scraper \<times> page_record option" where
  "extract_keyword_content w s u =
     (case fetch_page w s KeywordPage u of
        (s', None) \<Rightarrow> (s', None)
      | (s', Some soup) \<Rightarrow> (s', Some (page_content u soup)))"

text \<open>The first loop of \<open>scrape_letter_page\<close>: the keyword links of a letter page.\<close>

fun keyword_links_loop ::
  "world \<Rightarrow> string \<Rightarrow> (node \<times> string) list \<Rightarrow> scraper \<Rightarrow> (string \<times> string) list
     \<Rightarrow> py_error + scraper \<times> (string \<times> string) list" where
  "keyword_links_loop w u [] s keyword_links = Inr (s, keyword_links)"
| "keyword_links_loop w u ((a_tag, href) # rest) s keyword_links =
     (if \<not> contains ''section4/'' href then keyword_links_loop w u rest s keyword_links
      else case urljoin w u href of
             Inl e \<Rightarrow> Inl e
           | Inr full_url \<Rightarrow>
               (case urlparse w full_url of
                  Inl e \<Rightarrow> Inl e
                | Inr parsed \<Rightarrow>
                    (let normalized_url = netloc parsed @ path parsed
                     in if normalized_url \<in> visited_urls s
                        then keyword_links_loop w u rest s keyword_links
                        else keyword_links_loop w u rest
                               (s\<lparr>visited_urls := insert normalized_url (visited_urls s)\<rparr>)
                               (keyword_links @ [(get_text_strip a_tag, full_url)]))))"

text \<open>The second loop of \<open>scrape_letter_page\<close>: one keyword page after the other.\<close>

fun process_keywords :: "world \<Rightarrow> scraper \<Rightarrow> (string \<times> string) list \<Rightarrow> scraper" where
  "process_keywords w s [] = s"
| "process_keywords w s ((keyword, keyword_url) # rest) =
     (case extract_keyword_content w s keyword_url of
        (s', None) \<Rightarrow> process_keywords w s' rest
      | (s', Some keyword_data) \<Rightarrow>
          process_keywords w (s'\<lparr>results := results s' @ [keyword_data]\<rparr>) rest)"

definition scrape_letter_page ::
  "world \<Rightarrow> scraper \<Rightarrow> string \<Rightarrow> string \<Rightarrow> py_error + scraper" where
  "scrape_letter_page w s letter u =
     (case fetch_page w s LetterPage u of
        (s', None) \<Rightarrow> Inr s'
      | (s', Some soup) \<Rightarrow>
          (case keyword_links_loop w u (find_all_a_href soup) s' [] of
             Inl e \<Rightarrow> Inl e
           | Inr (s'', keyword_links) \<Rightarrow> Inr (process_keywords w s'' keyword_links)))"

text \<open>The first loop of \<open>scrape_alphabet_index\<close>: the letter links of the index.\<close>

fun letter_links_loop ::
  "world \<Rightarrow> string \<Rightarrow> (node \<times> string) list \<Rightarrow> (string \<times> string) list
     \<Rightarrow> py_error + (string \<times> string) list" where
  "letter_links_loop w iu [] letter_links = Inr letter_links"
| "letter_links_loop w iu ((a_tag, href) # rest) letter_links =
     (let link_text = get_text_strip a_tag
      in if (length link_text = 1 \<and> isalpha link_text) \<or> link_text = ''@''
         then if contains ''section4/'' href \<or> startswith href ''#''
              then case urljoin w iu href of
                     Inl e \<Rightarrow> Inl e
                   | Inr full_url \<Rightarrow>
                       letter_links_loop w iu rest (letter_links @ [(link_text, full_url)])
              else letter_links_loop w iu rest letter_links
         else letter_links_loop w iu rest letter_links)"

text \<open>The second loop of \<open>scrape_alphabet_index\<close>: one letter page after the other.\<close>

fun process_letters :: "world \<Rightarrow> scraper \<Rightarrow> (string \<times> string) list \<Rightarrow> py_error + scraper" where
  "process_letters w s [] = Inr s"
| "process_letters w s ((letter, letter_url) # rest) =
     (case scrape_letter_page w s letter letter_url of
        Inl e \<Rightarrow> Inl e
      | Inr s' \<Rightarrow> process_letters w s' rest)"

definition scrape_alphabet_index :: "world \<Rightarrow> scraper \<Rightarrow> py_error + scraper" where
  "scrape_alphabet_index w s =
     (case fetch_page w s IndexPage (index_url s) of
        (s', None) \<Rightarrow> Inr s'
      | (s', Some soup) \<Rightarrow>
          (case letter_links_loop w (index_url s') (find_all_a_href soup) [] of
             Inl e \<Rightarrow> Inl e
           | Inr letter_links \<Rightarrow> process_letters w s' letter_links))"

text \<open>
  The normalized URL of \<open>scrape_letter_page\<close>, \<open>netloc\<close> followed by \<open>path\<close>, as a
  function of the absolute URL.
\<close>

definition normalized :: "world \<Rightarrow> string \<Rightarrow> py_error + string" where
  "normalized w full_url =
     (case urlparse w full_url of
        Inl e \<Rightarrow> Inl e
      | Inr parsed \<Rightarrow> Inr (netloc parsed @ path parsed))"

text \<open>
  Reading a list of requests that starts as request number \<open>i\<close>: the URLs asked for as
  keyword pages, and the records that the keyword requests which succeeded give.
\<close>

fun keyword_fetches :: "request list \<Rightarrow> string list" where
  "keyword_fetches [] = []"
| "keyword_fetches ((k, u, V) # rest) =
     (if k = KeywordPage then u # keyword_fetches rest else keyword_fetches rest)"

fun request_records :: "world \<Rightarrow> nat \<Rightarrow> page_kind \<times> string \<Rightarrow> page_record list" where
  "request_records w i (KeywordPage, u) =
     (case http w i u of Inl e \<Rightarrow> [] | Inr soup \<Rightarrow> [page_content u soup])"
| "request_records w i (k, u) = []"

fun log_records :: "world \<Rightarrow> nat \<Rightarrow> request list \<Rightarrow> page_record list" where
  "log_records w i [] = []"
| "log_records w i ((k, u, V) # rest) =
     request_records w i (k, u) @ log_records w (Suc i) rest"

section \<open>Example pages\<close>

text \<open>
  A keyword page with a title, a heading, a code sample inside a preformatted block and
  a paragraph in the footer; and the same page written without a \<open>body\<close> tag, which
  \<open>html.parser\<close> does not add.
\<close>

definition abs_body :: node where
  "abs_body =
     Tag ''body'' []
       [Tag ''h1'' [] [Text ''Returns absolute value''],
        Tag ''pre'' [] [Tag ''code'' [] [Text '' ? ABS(-5) '']],
        Tag ''footer'' [] [Tag ''p'' [] [Text ''Hacker's Guide'']]]"

definition abs_page :: node where
  "abs_page =
     document [Tag ''html'' [] [Tag ''head'' [] [Tag ''title'' [] [Text ''ABS()'']], abs_body]]"

definition bodyless_page :: node where
  "bodyless_page =
     document
       [Tag ''html'' []
          [Tag ''head'' [] [Tag ''title'' [] [Text ''ABS()'']],
           Tag ''h1'' [] [Text ''Returns absolute value''],
           Tag ''pre'' [] [Tag ''code'' [] [Text '' ? ABS(-5) '']]]]"

text \<open>
  A keyword page whose paragraph and code sample have inline markup: a reader sees
  \<open>Returns the absolute value\<close> and \<open>? ABS( -5 )\<close>.
\<close>

definition inline_body :: node where
  "inline_body =
     Tag ''body'' []
       [Tag ''p'' [] [Text ''Returns the '', Tag ''b'' [] [Text ''absolute''], Text '' value''],
        Tag ''pre'' [] [Text ''? ABS( '', Tag ''i'' [] [Text ''-5''], Text '' )'']]"

definition inline_page :: node where
  "inline_page =
     document [Tag ''html'' [] [Tag ''head'' [] [Tag ''title'' [] [Text ''ABS()'']], inline_body]]"

text \<open>The requests that the second loop of \<open>scrape_letter_page\<close> makes for its links.\<close>

definition keyword_requests :: "scraper \<Rightarrow> (string \<times> string) list \<Rightarrow> request list" where
  "keyword_requests s keyword_links =
     map (\<lambda>(keyword, keyword_url). (KeywordPage, keyword_url, visited_urls s)) keyword_links"

text \<open>
  A kept keyword link \<open>l\<close> comes from the anchor \<open>a\<close> of the letter page at \<open>u\<close>: its
  label is the anchor's trimmed text, the \<open>href\<close> has the marker, and its URL is the
  \<open>href\<close> joined to \<open>u\<close>.
\<close>

definition link_of :: "world \<Rightarrow> string \<Rightarrow> string \<times> string \<Rightarrow> node \<times> string \<Rightarrow> bool" where
  "link_of w u l a =
     (fst l = get_text_strip (fst a) \<and> contains ''section4/'' (snd a) \<and>
      urljoin w u (snd a) = Inr (snd l))"

text \<open>
  From \<open>s\<close> to \<open>s'\<close> the crawl has only gone forward: the configuration is the same,
  the visited set has grown, requests were added at the end, and the records added at
  the end are those of the added keyword requests that succeeded.
\<close>

definition advances :: "world \<Rightarrow> scraper \<Rightarrow> scraper \<Rightarrow> bool" where
  "advances w s s' =
     (index_url s' = index_url s \<and> output_file s' = output_file s \<and>
      visited_urls s \<subseteq> visited_urls s' \<and>
      (\<exists>new. fetched s' = fetched s @ new \<and>
         results s' = results s @ log_records w (length (fetched s)) new))"

text \<open>
  The invariant of the crawl between two letter pages: the keyword requests made so far
  have pairwise different normalized URLs, which together are the visited set, and each
  was made when its normalized URL was already in the visited set.
\<close>

fun known_when_fetched :: "world \<Rightarrow> request \<Rightarrow> bool" where
  "known_when_fetched w (k, u, V) =
     (k = KeywordPage \<longrightarrow> (\<exists>n. normalized w u = Inr n \<and> n \<in> V))"

definition keyword_inv :: "world \<Rightarrow> scraper \<Rightarrow> bool" where
  "keyword_inv w s =
     ((\<exists>ns. map (normalized w) (keyword_fetches (fetched s)) = map Inr ns \<and> distinct ns \<and>
         set ns = visited_urls s) \<and>
      list_all (known_when_fetched w) (fetched s))"

section \<open>An example site\<close>

text \<open>
  \<open>urljoin\<close> and \<open>urlparse\<close> on the URLs the example uses: \<open>https\<close> URLs without
  parameters, joined with an href that is absolute, starts with a slash, is only a
  fragment, or is a plain relative path. On these \<open>urllib.parse\<close> computes the same.
  An href with the opening bracket of an IPv6 host and no closing one makes \<open>urljoin\<close>
  raise \<open>ValueError\<close> (Invalid IPv6 URL).
\<close>

definition site_urljoin :: "string \<Rightarrow> string \<Rightarrow> py_error + string" where
  "site_urljoin base href =
     (let origin = take 8 base @ takeWhile (\<lambda>c. c \<noteq> CHR ''/'') (drop 8 base);
          page = takeWhile (\<lambda>c. c \<noteq> CHR ''#'') base;
          file = takeWhile (\<lambda>c. c \<noteq> CHR ''?'') page;
          dir = rev (dropWhile (\<lambda>c. c \<noteq> CHR ''/'') (rev file))
      in if startswith href ''http://['' \<and> CHR '']'' \<notin> set href then Inl ValueError
         else Inr (if href = [] then base
                   else if startswith href ''https://'' then href
                   else if startswith href ''/'' then origin @ href
                   else if startswith href ''#'' then page @ href
                   else dir @ href))"

definition site_urlparse :: "string \<Rightarrow> py_error + parse_result" where
  "site_urlparse u =
     (let rest = drop 8 u;
          after = dropWhile (\<lambda>c. c \<noteq> CHR ''/'') rest;
          tail = dropWhile (\<lambda>c. c \<noteq> CHR ''?'' \<and> c \<noteq> CHR ''#'') after
      in Inr \<lparr>scheme = ''https'',
              netloc = takeWhile (\<lambda>c. c \<noteq> CHR ''/'') rest,
              path = takeWhile (\<lambda>c. c \<noteq> CHR ''?'' \<and> c \<noteq> CHR ''#'') after,
              params = [],
              query = (if startswith tail ''?''
                       then takeWhile (\<lambda>c. c \<noteq> CHR ''#'') (drop 1 tail) else []),
              fragment = drop 1 (dropWhile (\<lambda>c. c \<noteq> CHR ''#'') tail)\<rparr>)"

text \<open>
  The index has the letter links A and @, a link with a longer text to a letter page and
  a one-letter link to a page outside the keyword section. Letter page A links to the
  ABS page twice (the second time with a query and a fragment), to a page that
  answers 404, to letter page @ (its navigation bar) and home. Letter page @ links to
  the missing page again and to one more keyword page.
\<close>

definition anchor :: "string \<Rightarrow> string \<Rightarrow> node" where
  "anchor href label = Tag ''a'' [(''href'', href)] [Text label]"

definition site_index :: node where
  "site_index =
     document [Tag ''html'' [] [Tag ''body'' []
       [anchor ''/section4/a.html'' ''A'',
        anchor ''/section4/at.html'' '' @ '',
        anchor ''/section4/a.html'' ''All'',
        anchor ''/about.html'' ''B'']]]"

definition site_letter_a :: node where
  "site_letter_a =
     document [Tag ''html'' [] [Tag ''body'' []
       [anchor ''/section4/s4g001.html'' ''ABS()'',
        anchor ''/section4/s4g001.html?ref=a#top'' ''ABS() again'',
        anchor ''/section4/s4g002.html'' ''ACLASS()'',
        anchor ''/section4/at.html'' ''@'',
        anchor ''/index.html'' ''Home'']]]"

definition site_letter_at :: node where
  "site_letter_at =
     document [Tag ''html'' [] [Tag ''body'' []
       [anchor ''/section4/s4g002.html#retry'' ''ACLASS()'',
        anchor ''/section4/s4g003.html'' ''@ ... SAY'']]]"

definition say_page :: node where
  "say_page =
     document [Tag ''html'' []
       [Tag ''head'' [] [Tag ''title'' [] [Text ''@ ... SAY'']],
        Tag ''body'' [] [Tag ''p'' [] [Text ''Displays output.'']]]]"

definition not_found :: node where
  "not_found =
     document [Tag ''html'' []
       [Tag ''head'' [] [Tag ''title'' [] [Text ''Page not found'']],
        Tag ''body'' [] [Tag ''h1'' [] [Text ''404'']]]]"

definition site_get :: "nat \<Rightarrow> string \<Rightarrow> request_error + response" where
  "site_get i u =
     (if u = ''https://hackfox.github.io/section4/''
      then Inr \<lparr>status_code = 200, bs4_tree = Some site_index\<rparr>
      else if u = ''https://hackfox.github.io/section4/a.html''
      then Inr \<lparr>status_code = 200, bs4_tree = Some site_letter_a\<rparr>
      else if u = ''https://hackfox.github.io/section4/at.html''
      then Inr \<lparr>status_code = 200, bs4_tree = Some site_letter_at\<rparr>
      else if u = ''https://hackfox.github.io/section4/s4g001.html''
      then Inr \<lparr>status_code = 200, bs4_tree = Some abs_page\<rparr>
      else if u = ''https://hackfox.github.io/section4/s4g003.html''
      then Inr \<lparr>status_code = 200, bs4_tree = Some say_page\<rparr>
      else Inr \<lparr>status_code = 404, bs4_tree = Some not_found\<rparr>)"

definition site :: world where
  "site = \<lparr>requests_get = site_get, urljoin = site_urljoin, urlparse = site_urlparse\<rparr>"





definition site_start :: scraper where
  "site_start =
     scraper_init ''https://hackfox.github.io/section4/'' ''vfp_keywords_documentation.json''"

definition site_visited :: "string set" where
  "site_visited =
     {''hackfox.github.io/section4/s4g001.html'', ''hackfox.github.io/section4/s4g002.html'',
      ''hackfox.github.io/section4/at.html''}"

definition site_final :: scraper where
  "site_final =
     \<lparr>index_url = ''https://hackfox.github.io/section4/'',
      output_file = ''vfp_keywords_documentation.json'',
      visited_urls = insert ''hackfox.github.io/section4/s4g003.html'' site_visited,
      results =
        [\<lparr>url = ''https://hackfox.github.io/section4/s4g001.html'', title = ''ABS()'',
          text_content = [''Returns absolute value''],
          code_blocks = [''? ABS(-5)'', ''? ABS(-5)'']\<rparr>,
         \<lparr>url = ''https://hackfox.github.io/section4/at.html'', title = ''No title'',
          text_content = [], code_blocks = []\<rparr>,
         \<lparr>url = ''https://hackfox.github.io/section4/s4g003.html'', title = ''@ ... SAY'',
          text_content = [''Displays output.''], code_blocks = []\<rparr>],
      fetched =
        [(IndexPage, ''https://hackfox.github.io/section4/'', {}),
         (LetterPage, ''https://hackfox.github.io/section4/a.html'', {}),
         (KeywordPage, ''https://hackfox.github.io/section4/s4g001.html'', site_visited),
         (KeywordPage, ''https://hackfox.github.io/section4/s4g002.html'', site_visited),
         (KeywordPage, ''https://hackfox.github.io/section4/at.html'', site_visited),
         (LetterPage, ''https://hackfox.github.io/section4/at.html'', site_visited),
         (KeywordPage, ''https://hackfox.github.io/section4/s4g003.html'',
          insert ''hackfox.github.io/section4/s4g003.html'' site_visited)]\<rparr>"

text \<open>
  Letter-link detection as the specification words it: the trimmed anchor text is
  exactly one alphabetic character or exactly \<open>@\<close>, and the href contains the marker
  \<open>section4/\<close> or starts with \<open>#\<close>.
\<close>

definition is_letter_link :: "node \<times> string \<Rightarrow> bool" where
  "is_letter_link a =
     ((case get_text_strip (fst a) of [c] \<Rightarrow> py_isalpha_char c \<or> c = CHR ''@'' | _ \<Rightarrow> False) \<and>
      (contains ''section4/'' (snd a) \<or> startswith (snd a) ''#''))"

text \<open>A letter link \<open>l\<close> comes from the anchor \<open>a\<close> of the index page at \<open>iu\<close>.\<close>

definition letter_of :: "world \<Rightarrow> string \<Rightarrow> string \<times> string \<Rightarrow> node \<times> string \<Rightarrow> bool" where
  "letter_of w iu l a =
     (fst l = get_text_strip (fst a) \<and> urljoin w iu (snd a) = Inr (snd l))"

section \<open>The result writer\<close>

text \<open>
  The values that \<open>save_results\<close> hands to \<open>json.dump\<close>: strings, integers, lists
  and dictionaries with string keys, a dictionary keeping its keys in insertion order.
\<close>

datatype pyval =
  PStr string
| PInt int
| PList "pyval list"
| PDict "(string \<times> pyval) list"

text \<open>A record of \<open>results\<close> is the dictionary that \<open>extract_keyword_content\<close> builds.\<close>

definition record_dict :: "page_record \<Rightarrow> pyval" where
  "record_dict r =
     PDict [(''url'', PStr (url r)), (''title'', PStr (title r)),
            (''text_content'', PList (map PStr (text_content r))),
            (''code_blocks'', PList (map PStr (code_blocks r)))]"

text \<open>
  \<open>time.strftime('%Y-%m-%d %H:%M:%S')\<close> of the local time, a \<open>struct_time\<close>: the year in
  decimal, the other fields in two digits.
\<close>

record struct_time =
  tm_year :: nat
  tm_mon :: nat
  tm_mday :: nat
  tm_hour :: nat
  tm_min :: nat
  tm_sec :: nat

definition digit :: "nat \<Rightarrow> char" where
  "digit k = char_of (48 + k)"

fun show_nat :: "nat \<Rightarrow> string" where
  "show_nat n = (if n < 10 then [digit n] else show_nat (n div 10) @ [digit (n mod 10)])"

declare show_nat.simps [simp del]

definition pad2 :: "nat \<Rightarrow> string" where
  "pad2 n = (if n < 10 then CHR ''0'' # show_nat n else show_nat n)"

definition strftime :: "struct_time \<Rightarrow> string" where
  "strftime t =
     show_nat (tm_year t) @ ''-'' @ pad2 (tm_mon t) @ ''-'' @ pad2 (tm_mday t) @ '' '' @
     pad2 (tm_hour t) @ '':'' @ pad2 (tm_min t) @ '':'' @ pad2 (tm_sec t)"

text \<open>The fields that \<open>time.localtime()\<close> gives, for a year of four digits.\<close>

definition valid_time :: "struct_time \<Rightarrow> bool" where
  "valid_time t =
     (1000 \<le> tm_year t \<and> tm_year t \<le> 9999 \<and> 1 \<le> tm_mon t \<and> tm_mon t \<le> 12 \<and>
      1 \<le> tm_mday t \<and> tm_mday t \<le> 31 \<and> tm_hour t \<le> 23 \<and> tm_min t \<le> 59 \<and> tm_sec t \<le> 61)"

text \<open>A string of the shape \<open>YYYY-MM-DD HH:MM:SS\<close>.\<close>

definition is_digit :: "char \<Rightarrow> bool" where
  "is_digit c = (48 \<le> (of_char c :: nat) \<and> (of_char c :: nat) \<le> 57)"

fun is_timestamp :: "string \<Rightarrow> bool" where
  "is_timestamp [y1, y2, y3, y4, d1, m1, m2, d2, a1, a2, sp, h1, h2, c1, i1, i2, c2, s1, s2] =
     (list_all is_digit [y1, y2, y3, y4, m1, m2, a1, a2, h1, h2, i1, i2, s1, s2] \<and>
      d1 = CHR ''-'' \<and> d2 = CHR ''-'' \<and> sp = CHR '' '' \<and> c1 = CHR '':'' \<and> c2 = CHR '':'')"
| "is_timestamp other = False"

text \<open>The dictionary literal of \<open>save_results\<close>.\<close>

definition run_archive :: "struct_time \<Rightarrow> scraper \<Rightarrow> pyval" where
  "run_archive now s =
     PDict [(''base_url'', PStr (index_url s)),
            (''total_keywords'', PInt (int (length (results s)))),
            (''scraped_date'', PStr (strftime now)),
            (''results'', PList (map record_dict (results s)))]"

text \<open>
  \<open>json.dump(obj, f, indent=2)\<close>, from the encoder of the \<open>json\<close> module with its
  defaults (\<open>ensure_ascii\<close>, item separator \<open>,\<close>, key separator \<open>: \<close>): a character
  other than a printable ASCII character, and the quote and the backslash, are escaped;
  an empty list or dictionary is written closed; the items of another are written one a
  line, two spaces deeper than the brackets.
\<close>

definition hex_digit :: "nat \<Rightarrow> char" where
  "hex_digit k = (if k < 10 then char_of (48 + k) else char_of (87 + k))"

definition encode_char :: "char \<Rightarrow> string" where
  "encode_char c =
     (let n = (of_char c :: nat)
      in if n = 34 then [CHR 0x5C, CHR 0x22]
         else if n = 92 then [CHR 0x5C, CHR 0x5C]
         else if n = 10 then [CHR 0x5C, CHR ''n'']
         else if n = 13 then [CHR 0x5C, CHR ''r'']
         else if n = 9 then [CHR 0x5C, CHR ''t'']
         else if n = 8 then [CHR 0x5C, CHR ''b'']
         else if n = 12 then [CHR 0x5C, CHR ''f'']
         else if 32 \<le> n \<and> n \<le> 126 then [c]
         else [CHR 0x5C, CHR ''u'', CHR ''0'', CHR ''0'', hex_digit (n div 16), hex_digit (n mod 16)])"

definition encode_str :: "string \<Rightarrow> string" where
  "encode_str s = CHR 0x22 # concat (map encode_char s) @ [CHR 0x22]"

definition show_int :: "int \<Rightarrow> string" where
  "show_int i = (if i < 0 then CHR ''-'' # show_nat (nat (- i)) else show_nat (nat i))"

definition newline_indent :: "nat \<Rightarrow> string" where
  "newline_indent level = CHR 0x0A # replicate (2 * level) CHR '' ''"

fun iterencode :: "nat \<Rightarrow> pyval \<Rightarrow> string"
  and iterencode_list :: "nat \<Rightarrow> pyval list \<Rightarrow> string"
  and iterencode_dict :: "nat \<Rightarrow> (string \<times> pyval) list \<Rightarrow> string" where
  "iterencode level (PStr s) = encode_str s"
| "iterencode level (PInt i) = show_int i"
| "iterencode level (PList []) = ''[]''"
| "iterencode level (PList (v # vs)) =
     ''['' @ newline_indent (Suc level) @ iterencode_list (Suc level) (v # vs) @
     newline_indent level @ '']''"
| "iterencode level (PDict []) = ''{}''"
| "iterencode level (PDict (kv # kvs)) =
     ''{'' @ newline_indent (Suc level) @ iterencode_dict (Suc level) (kv # kvs) @
     newline_indent level @ ''}''"
| "iterencode_list level [] = []"
| "iterencode_list level [v] = iterencode level v"
| "iterencode_list level (v # v' # vs) =
     iterencode level v @ '','' @ newline_indent level @ iterencode_list level (v' # vs)"
| "iterencode_dict level [] = []"
| "iterencode_dict level [(k, v)] = encode_str k @ '': '' @ iterencode level v"
| "iterencode_dict level ((k, v) # kv # kvs) =
     encode_str k @ '': '' @ iterencode level v @ '','' @ newline_indent level @
     iterencode_dict level (kv # kvs)"

definition json_dumps :: "pyval \<Rightarrow> string" where
  "json_dumps obj = iterencode 0 obj"

text \<open>
  The files, by path, and what the disk does with the write: the file cannot be opened
  (it stays as it is); it is opened, which empties it, and the write fails when only the
  first \<open>n\<close> characters have reached it; or the whole text is written. Directories
  (the constructor makes the one of the output file) are not part of the model.
\<close>

type_synonym files = "string \<rightharpoonup> string"

datatype disk = CannotOpen | FailsAfter nat | Accepts

definition save_results ::
  "struct_time \<Rightarrow> disk \<Rightarrow> scraper \<Rightarrow> files \<Rightarrow> files \<times> (py_error + unit)" where
  "save_results now d s fs =
     (let content = json_dumps (run_archive now s)
      in case d of
           CannotOpen \<Rightarrow> (fs, Inl OSError)
         | FailsAfter n \<Rightarrow>
             if n < length content
             then (fs(output_file s \<mapsto> take n content), Inl OSError)
             else (fs(output_file s \<mapsto> content), Inr ())
         | Accepts \<Rightarrow> (fs(output_file s \<mapsto> content), Inr ()))"

text \<open>
  \<open>run\<close>, from a new scraper: the crawl, then the write. An exception of either ends
  the run.
\<close>

definition run ::
  "world \<Rightarrow> struct_time \<Rightarrow> disk \<Rightarrow> string \<Rightarrow> string \<Rightarrow> files \<Rightarrow> files \<times> (py_error + scraper)" where
  "run w now d iu out fs =
     (case scrape_alphabet_index w (scraper_init iu out) of
        Inl e \<Rightarrow> (fs, Inl e)
      | Inr s \<Rightarrow>
          (case save_results now d s fs of
             (fs', Inl e) \<Rightarrow> (fs', Inl e)
           | (fs', Inr u) \<Rightarrow> (fs', Inr s)))"

definition site_time :: struct_time where
  "site_time = \<lparr>tm_year = 2026, tm_mon = 11, tm_mday = 4, tm_hour = 9, tm_min = 5, tm_sec = 0\<rparr>"

















section \<open>Extraction: the loops and their closed forms\<close>

lemma text_content_loop_eq:
  "text_content_loop ms acc =
     acc @ filter (\<lambda>t. t \<noteq> [])
             (map (\<lambda>(p, e). get_text_strip e) (filter (\<lambda>(p, e). p \<notin> set nav_tags) ms))"
  by (induction ms acc rule: text_content_loop.induct) (simp_all add: Let_def)

lemma code_blocks_loop_eq:
  "code_blocks_loop ms acc =
     acc @ filter (\<lambda>t. t \<noteq> []) (map (\<lambda>(p, e). get_text_strip e) ms)"
  by (induction ms acc rule: code_blocks_loop.induct) (simp_all add: Let_def)

lemma descendants_split:
  "(q, x) \<in> set (descendants r) \<Longrightarrow>
     \<exists>xs ys. descendants r = xs @ (q, x) # descendants x @ ys"
proof (induction r)
  case (Text s)
  then show ?case by simp
next
  case (Tag n a cs)
  from Tag.prems obtain c where c: "c \<in> set cs"
    and mem: "(q, x) = (n, c) \<or> (q, x) \<in> set (descendants c)"
    by auto
  from c obtain before after where cs: "cs = before @ c # after"
    by (auto dest: split_list)
  let ?f = "\<lambda>c. (n, c) # descendants c"
  have whole: "descendants (Tag n a cs) =
      concat (map ?f before) @ (n, c) # descendants c @ concat (map ?f after)"
    by (simp add: cs)
  from mem show ?case
  proof
    assume "(q, x) = (n, c)"
    with whole show ?thesis by blast
  next
    assume "(q, x) \<in> set (descendants c)"
    with Tag.IH [OF c] obtain xs ys
      where "descendants c = xs @ (q, x) # descendants x @ ys" by blast
    with whole have "descendants (Tag n a cs) =
        (concat (map ?f before) @ (n, c) # xs) @ (q, x) # descendants x
          @ (ys @ concat (map ?f after))"
      by simp
    then show ?thesis by blast
  qed
qed

lemma strings_split:
  "(q, x) \<in> set (descendants r) \<Longrightarrow> \<exists>us vs. strings r = us @ strings x @ vs"
proof (induction r)
  case (Text s)
  then show ?case by simp
next
  case (Tag n a cs)
  from Tag.prems obtain c where c: "c \<in> set cs"
    and mem: "(q, x) = (n, c) \<or> (q, x) \<in> set (descendants c)"
    by auto
  from c obtain before after where cs: "cs = before @ c # after"
    by (auto dest: split_list)
  have whole: "strings (Tag n a cs) =
      concat (map strings before) @ strings c @ concat (map strings after)"
    by (simp add: cs)
  from mem show ?case
  proof
    assume "(q, x) = (n, c)"
    with whole show ?thesis by blast
  next
    assume "(q, x) \<in> set (descendants c)"
    with Tag.IH [OF c] obtain us vs
      where "strings c = us @ strings x @ vs" by blast
    with whole have "strings (Tag n a cs) =
        (concat (map strings before) @ us) @ strings x @ (vs @ concat (map strings after))"
      by simp
    then show ?thesis by blast
  qed
qed

lemma get_text_strip_split:
  assumes "(q, x) \<in> set (descendants r)"
  shows "\<exists>A B. get_text_strip r = A @ get_text_strip x @ B"
proof -
  from strings_split [OF assms] obtain us vs where "strings r = us @ strings x @ vs"
    by blast
  then have "get_text_strip r =
      concat (filter (\<lambda>t. t \<noteq> []) (map strip us)) @ get_text_strip x
        @ concat (filter (\<lambda>t. t \<noteq> []) (map strip vs))"
    by (simp add: get_text_strip_def)
  then show ?thesis by blast
qed

lemma has_name_mono: "has_name ns e \<Longrightarrow> set ns \<subseteq> set ms \<Longrightarrow> has_name ms e"
  by (cases e) auto

lemmas page_eval =
  page_content_def find_first_def find_all_def document_def text_tags_def nav_tags_def
  code_tags_def get_text_def get_text_strip_def strip_def py_isspace_def Let_def
  spec_text_content_def spec_code_blocks_def trimmed_visible_text_def abs_page_def abs_body_def
  bodyless_page_def inline_page_def inline_body_def

lemma get_text_strip_one_string:
  "length (strings e) \<le> 1 \<Longrightarrow> get_text_strip e = trimmed_visible_text e"
proof (cases "strings e")
  case Nil
  then show ?thesis
    by (simp add: get_text_strip_def trimmed_visible_text_def get_text_def strip_def)
next
  case (Cons t ts)
  assume "length (strings e) \<le> 1"
  with Cons have "strings e = [t]" by simp
  then show ?thesis
    by (simp add: get_text_strip_def trimmed_visible_text_def get_text_def)
qed

lemma filter_map_texts:
  assumes "\<forall>(p, e) \<in> set ms. length (strings e) \<le> 1"
  shows "filter (\<lambda>t. t \<noteq> []) (map (\<lambda>(p, e). get_text_strip e) (filter Q ms)) =
     filter (\<lambda>t. t \<noteq> []) (map (\<lambda>(p, e). trimmed_visible_text e) (filter Q ms))"
proof -
  have "map (\<lambda>(p, e). get_text_strip e) (filter Q ms) =
      map (\<lambda>(p, e). trimmed_visible_text e) (filter Q ms)"
    using assms by (intro map_cong refl) (auto simp: get_text_strip_one_string)
  then show ?thesis by (simp only:)
qed

section \<open>Claims about the content extractor\<close>

text \<open>
  C2, as stated: for every parsed document, \<open>text_content\<close> is the trimmed visible text
  of the heading, paragraph and list-item elements of the document whose parent is not
  nav/header/footer and whose trimmed text is not empty, and \<open>code_blocks\<close> the trimmed
  visible text of the pre and code elements whose trimmed text is not empty. It fails in
  two ways. On a page without a \<open>body\<close> element the extractor returns no text at all,
  although the heading of \<open>bodyless_page\<close> is such an element. And on a page with a body
  whose paragraph has inline markup the entry is not the trimmed visible text: each text
  node is trimmed on its own and the pieces are joined with nothing between them, so the
  spaces around the inline element are lost.
\<close>

theorem trimmed_visible_text_counterexample:
  "find_first ''body'' bodyless_page = None \<and>
   spec_text_content bodyless_page = [''Returns absolute value''] \<and>
   text_content (page_content ''https://hackfox.github.io/section4/s4g001.html'' bodyless_page) = [] \<and>
   find_first ''body'' inline_page = Some inline_body \<and>
   spec_text_content inline_body = [''Returns the absolute value''] \<and>
   text_content (page_content ''https://hackfox.github.io/section4/s4g001.html'' inline_page) =
     [''Returns theabsolutevalue''] \<and>
   spec_code_blocks inline_body = [''? ABS( -5 )''] \<and>
   code_blocks (page_content ''https://hackfox.github.io/section4/s4g001.html'' inline_page) =
     [''? ABS(-5)'']"
  by (simp add: page_eval)

text \<open>
  C2, amended: the elements read are those below the first \<open>body\<close> element of the
  document, and without a body both sequences are empty. The entry of an element is its
  joined text: the text nodes below it in document order, each trimmed, the empty ones
  dropped, concatenated with no separator. With a body, \<open>text_content\<close> is, in document
  order, the joined text of the h1-h6, p and li elements below it whose immediate parent
  is not nav/header/footer and whose joined text is not empty, and \<open>code_blocks\<close> is the
  joined text of every pre or code element below it whose joined text is not empty, with
  no exclusion by parent. The joined text of an element with at most one text node is its
  trimmed visible text; so when every matched element below the body has at most one text
  node, the two sequences are the ones the specification describes.
\<close>

theorem extract_text_and_code_of_body:
  "text_content (page_content u soup) =
     (case find_first ''body'' soup of
        None \<Rightarrow> []
      | Some b \<Rightarrow>
          filter (\<lambda>t. t \<noteq> [])
            (map (\<lambda>(p, e). concat (filter (\<lambda>t. t \<noteq> []) (map strip (strings e))))
               (filter (\<lambda>(p, e). p \<notin> set nav_tags) (find_all text_tags b)))) \<and>
   code_blocks (page_content u soup) =
     (case find_first ''body'' soup of
        None \<Rightarrow> []
      | Some b \<Rightarrow>
          filter (\<lambda>t. t \<noteq> [])
            (map (\<lambda>(p, e). concat (filter (\<lambda>t. t \<noteq> []) (map strip (strings e))))
               (find_all code_tags b))) \<and>
   (find_first ''body'' soup = Some b \<and>
      (\<forall>(p, e) \<in> set (find_all text_tags b). length (strings e) \<le> 1) \<longrightarrow>
        text_content (page_content u soup) = spec_text_content b) \<and>
   (find_first ''body'' soup = Some b \<and>
      (\<forall>(p, e) \<in> set (find_all code_tags b). length (strings e) \<le> 1) \<longrightarrow>
        code_blocks (page_content u soup) = spec_code_blocks b)"
proof (intro conjI impI)
  show "text_content (page_content u soup) =
     (case find_first ''body'' soup of
        None \<Rightarrow> []
      | Some b \<Rightarrow>
          filter (\<lambda>t. t \<noteq> [])
            (map (\<lambda>(p, e). concat (filter (\<lambda>t. t \<noteq> []) (map strip (strings e))))
               (filter (\<lambda>(p, e). p \<notin> set nav_tags) (find_all text_tags b))))"
    by (simp add: page_content_def Let_def text_content_loop_eq get_text_strip_def
          split: option.splits)
  show "code_blocks (page_content u soup) =
     (case find_first ''body'' soup of
        None \<Rightarrow> []
      | Some b \<Rightarrow>
          filter (\<lambda>t. t \<noteq> [])
            (map (\<lambda>(p, e). concat (filter (\<lambda>t. t \<noteq> []) (map strip (strings e))))
               (find_all code_tags b)))"
    by (simp add: page_content_def Let_def code_blocks_loop_eq get_text_strip_def
          split: option.splits)
next
  assume a: "find_first ''body'' soup = Some b \<and>
      (\<forall>(p, e) \<in> set (find_all text_tags b). length (strings e) \<le> 1)"
  then have "text_content (page_content u soup) =
      filter (\<lambda>t. t \<noteq> []) (map (\<lambda>(p, e). get_text_strip e)
        (filter (\<lambda>(p, e). p \<notin> set nav_tags) (find_all text_tags b)))"
    by (simp add: page_content_def Let_def text_content_loop_eq)
  also have "\<dots> = spec_text_content b"
    unfolding spec_text_content_def using a by (intro filter_map_texts) simp
  finally show "text_content (page_content u soup) = spec_text_content b" .
next
  assume a: "find_first ''body'' soup = Some b \<and>
      (\<forall>(p, e) \<in> set (find_all code_tags b). length (strings e) \<le> 1)"
  then have "code_blocks (page_content u soup) =
      filter (\<lambda>t. t \<noteq> []) (map (\<lambda>(p, e). get_text_strip e)
        (filter (\<lambda>x. True) (find_all code_tags b)))"
    by (simp add: page_content_def Let_def code_blocks_loop_eq)
  also have "\<dots> = filter (\<lambda>t. t \<noteq> []) (map (\<lambda>(p, e). trimmed_visible_text e)
        (filter (\<lambda>x. True) (find_all code_tags b)))"
    using a by (intro filter_map_texts) simp
  finally show "code_blocks (page_content u soup) = spec_code_blocks b"
    by (simp add: spec_code_blocks_def)
qed

theorem extract_text_and_code_of_body_witness:
  "find_first ''body'' abs_page = Some abs_body \<and>
   list_all (\<lambda>(p, e). length (strings e) \<le> 1) (find_all text_tags abs_body) \<and>
   list_all (\<lambda>(p, e). length (strings e) \<le> 1) (find_all code_tags abs_body) \<and>
   spec_text_content abs_body = [''Returns absolute value''] \<and>
   spec_code_blocks abs_body = [''? ABS(-5)'', ''? ABS(-5)''] \<and>
   text_content (page_content ''https://hackfox.github.io/section4/s4g001.html'' abs_page) =
     [''Returns absolute value''] \<and>
   code_blocks (page_content ''https://hackfox.github.io/section4/s4g001.html'' abs_page) =
     [''? ABS(-5)'', ''? ABS(-5)'']"
proof -
  have b: "find_first ''body'' abs_page = Some abs_body"
    by (simp add: page_eval)
  have one_t: "list_all (\<lambda>(p, e). length (strings e) \<le> 1) (find_all text_tags abs_body)"
    by (simp add: page_eval)
  have one_c: "list_all (\<lambda>(p, e). length (strings e) \<le> 1) (find_all code_tags abs_body)"
    by (simp add: page_eval)
  have t: "spec_text_content abs_body = [''Returns absolute value'']"
    by (simp add: page_eval)
  have c: "spec_code_blocks abs_body = [''? ABS(-5)'', ''? ABS(-5)'']"
    by (simp add: page_eval)
  from one_t have all_t: "\<forall>(p, e) \<in> set (find_all text_tags abs_body). length (strings e) \<le> 1"
    by (simp add: list_all_iff)
  from one_c have all_c: "\<forall>(p, e) \<in> set (find_all code_tags abs_body). length (strings e) \<le> 1"
    by (simp add: list_all_iff)
  from extract_text_and_code_of_body
      [of "''https://hackfox.github.io/section4/s4g001.html''" abs_page abs_body] b all_t all_c
  have "text_content (page_content ''https://hackfox.github.io/section4/s4g001.html'' abs_page) =
      spec_text_content abs_body"
    and "code_blocks (page_content ''https://hackfox.github.io/section4/s4g001.html'' abs_page) =
      spec_code_blocks abs_body"
    by blast+
  with b one_t one_c t c show ?thesis by (simp only:)
qed

text \<open>
  C9, as stated: for every parsed document with a code element nested in a pre element,
  the text is emitted into \<open>code_blocks\<close> at least twice. It fails on a page without a
  \<open>body\<close> element: \<open>bodyless_page\<close> has such a pair and nothing is emitted.
\<close>

theorem bodyless_nested_code_counterexample:
  "(''html'', Tag ''pre'' [] [Tag ''code'' [] [Text '' ? ABS(-5) '']])
     \<in> set (descendants bodyless_page) \<and>
   (''pre'', Tag ''code'' [] [Text '' ? ABS(-5) ''])
     \<in> set (descendants (Tag ''pre'' [] [Tag ''code'' [] [Text '' ? ABS(-5) '']])) \<and>
   get_text_strip (Tag ''code'' [] [Text '' ? ABS(-5) '']) = ''? ABS(-5)'' \<and>
   code_blocks (page_content ''https://hackfox.github.io/section4/s4g001.html'' bodyless_page) = []"
  by (simp add: page_eval)

text \<open>
  C9, amended: when the document has a body, a pre element \<open>p\<close> lies below the body and
  a code element \<open>c\<close> with non-empty trimmed text lies below \<open>p\<close>, then \<open>code_blocks\<close>
  has an entry for \<open>p\<close> and, after it, an entry for \<open>c\<close>; the entry of \<open>p\<close> contains
  the text of \<open>c\<close> as a contiguous part; and when the two texts are equal (the pre
  element has no other text) that string occurs at least twice in \<open>code_blocks\<close>.
\<close>

theorem nested_code_emitted_twice:
  assumes body: "find_first ''body'' soup = Some b"
    and pre: "(pp, p) \<in> set (descendants b)" and p_pre: "has_name [''pre''] p"
    and code: "(cp, c) \<in> set (descendants p)" and c_code: "has_name [''code''] c"
    and ne: "get_text_strip c \<noteq> []"
  shows "(\<exists>L1 L2 L3 A B.
      code_blocks (page_content u soup) = L1 @ get_text_strip p # L2 @ get_text_strip c # L3
      \<and> get_text_strip p = A @ get_text_strip c @ B) \<and>
    (get_text_strip p = get_text_strip c \<longrightarrow>
       2 \<le> count_list (code_blocks (page_content u soup)) (get_text_strip c))"
proof -
  let ?g = "\<lambda>ms. filter (\<lambda>t. t \<noteq> []) (map (\<lambda>(p, e). get_text_strip e)
      (filter (\<lambda>(p, e). has_name code_tags e) ms))"
  have g_app: "\<And>xs ys. ?g (xs @ ys) = ?g xs @ ?g ys" by simp
  from get_text_strip_split [OF code] obtain A B
    where AB: "get_text_strip p = A @ get_text_strip c @ B" by blast
  with ne have pne: "get_text_strip p \<noteq> []" by simp
  from descendants_split [OF pre] obtain xs ys
    where b: "descendants b = xs @ (pp, p) # descendants p @ ys" by blast
  from descendants_split [OF code] obtain xs' ys'
    where p: "descendants p = xs' @ (cp, c) # descendants c @ ys'" by blast
  have gp: "?g [(pp, p)] = [get_text_strip p]"
    using pne has_name_mono [OF p_pre, of code_tags] by (simp add: code_tags_def)
  have gc: "?g [(cp, c)] = [get_text_strip c]"
    using ne has_name_mono [OF c_code, of code_tags] by (simp add: code_tags_def)
  have "descendants b = xs @ [(pp, p)] @ xs' @ [(cp, c)] @ (descendants c @ ys' @ ys)"
    by (simp add: b p)
  then have "?g (descendants b) =
      ?g xs @ ?g [(pp, p)] @ ?g xs' @ ?g [(cp, c)] @ ?g (descendants c @ ys' @ ys)"
    by (simp only: g_app)
  then have "?g (descendants b) =
      ?g xs @ get_text_strip p # ?g xs' @ get_text_strip c # ?g (descendants c @ ys' @ ys)"
    by (simp only: gp gc append_Cons append_Nil)
  moreover have "code_blocks (page_content u soup) = ?g (descendants b)"
    using body by (simp add: page_content_def Let_def code_blocks_loop_eq find_all_def)
  ultimately have blocks: "code_blocks (page_content u soup) =
      ?g xs @ get_text_strip p # ?g xs' @ get_text_strip c # ?g (descendants c @ ys' @ ys)"
    by (rule trans [rotated])
  have twice: "get_text_strip p = get_text_strip c \<longrightarrow>
      2 \<le> count_list (code_blocks (page_content u soup)) (get_text_strip c)"
    by (simp only: blocks) simp
  from blocks AB have "\<exists>L1 L2 L3 A B.
      code_blocks (page_content u soup) = L1 @ get_text_strip p # L2 @ get_text_strip c # L3
      \<and> get_text_strip p = A @ get_text_strip c @ B"
    by - (rule exI conjI | assumption)+
  with twice show ?thesis by simp
qed

theorem nested_code_emitted_twice_witness:
  "find_first ''body'' abs_page = Some abs_body \<and>
   (''body'', Tag ''pre'' [] [Tag ''code'' [] [Text '' ? ABS(-5) '']])
     \<in> set (descendants abs_body) \<and>
   (''pre'', Tag ''code'' [] [Text '' ? ABS(-5) ''])
     \<in> set (descendants (Tag ''pre'' [] [Tag ''code'' [] [Text '' ? ABS(-5) '']])) \<and>
   2 \<le> count_list
         (code_blocks (page_content ''https://hackfox.github.io/section4/s4g001.html'' abs_page))
         ''? ABS(-5)''"
proof -
  let ?c = "Tag ''code'' [] [Text '' ? ABS(-5) '']"
  let ?p = "Tag ''pre'' [] [?c]"
  have h1: "find_first ''body'' abs_page = Some abs_body"
    by (simp add: page_eval)
  have h2: "(''body'', ?p) \<in> set (descendants abs_body)"
    by (simp add: page_eval)
  have h3: "has_name [''pre''] ?p" by simp
  have h4: "(''pre'', ?c) \<in> set (descendants ?p)" by simp
  have h5: "has_name [''code''] ?c" by simp
  have tc: "get_text_strip ?c = ''? ABS(-5)''" by (simp add: page_eval)
  have tp: "get_text_strip ?p = ''? ABS(-5)''" by (simp add: page_eval)
  have h6: "get_text_strip ?c \<noteq> []" by (simp add: tc)
  from nested_code_emitted_twice [OF h1 h2 h3 h4 h5 h6,
      of "''https://hackfox.github.io/section4/s4g001.html''"]
  have "2 \<le> count_list
      (code_blocks (page_content ''https://hackfox.github.io/section4/s4g001.html'' abs_page))
      ''? ABS(-5)''"
    by (simp only: tc tp)
  with h1 h2 h4 show ?thesis by simp
qed

section \<open>The crawl: closed forms and invariants\<close>

lemma log_records_append:
  "log_records w i (xs @ ys) = log_records w i xs @ log_records w (i + length xs) ys"
  by (induction xs arbitrary: i) auto

lemma keyword_fetches_append:
  "keyword_fetches (xs @ ys) = keyword_fetches xs @ keyword_fetches ys"
  by (induction xs) auto

lemma keyword_fetches_keyword_requests:
  "keyword_fetches (keyword_requests s links) = map snd links"
  by (induction links) (auto simp: keyword_requests_def)

lemma process_keywords_eq:
  "process_keywords w s links =
     s\<lparr>fetched := fetched s @ keyword_requests s links,
       results := results s @ log_records w (length (fetched s)) (keyword_requests s links)\<rparr>"
proof (induction links arbitrary: s)
  case Nil
  then show ?case by (simp add: keyword_requests_def)
next
  case (Cons l links)
  obtain keyword keyword_url where l: "l = (keyword, keyword_url)" by (cases l)
  show ?case
    by (simp add: l Cons.IH extract_keyword_content_def fetch_page_def keyword_requests_def
        Let_def split: sum.splits)
qed


lemma keyword_links_loop_props:
  assumes "keyword_links_loop w u as s acc = Inr (s', links)"
  shows "\<exists>new ns kept.
      links = acc @ new \<and> s' = s\<lparr>visited_urls := visited_urls s \<union> set ns\<rparr> \<and>
      map (normalized w) (map snd new) = map Inr ns \<and> distinct ns \<and>
      set ns \<inter> visited_urls s = {} \<and> subseq kept as \<and> list_all2 (link_of w u) new kept"
  using assms
proof (induction w u as s acc rule: keyword_links_loop.induct)
  case (1 w u s keyword_links)
  then have "links = keyword_links @ [] \<and> s' = s\<lparr>visited_urls := visited_urls s \<union> set []\<rparr>"
    by simp
  then show ?case by fastforce
next
  case (2 w u a_tag href rest s keyword_links)
  show ?case
  proof (cases "contains ''section4/'' href")
    case False
    with "2.prems" have "keyword_links_loop w u rest s keyword_links = Inr (s', links)"
      by simp
    from "2.IH"(1) [OF _ this] False obtain new ns kept where
      "links = keyword_links @ new" "s' = s\<lparr>visited_urls := visited_urls s \<union> set ns\<rparr>"
      "map (normalized w) (map snd new) = map Inr ns" "distinct ns"
      "set ns \<inter> visited_urls s = {}" "subseq kept ((a_tag, href) # rest)"
      "list_all2 (link_of w u) new kept"
      by auto
    then show ?thesis by blast
  next
    case True
    with "2.prems" obtain full_url parsed where
      j: "urljoin w u href = Inr full_url" and p: "urlparse w full_url = Inr parsed"
      by (auto split: sum.splits)
    let ?n = "netloc parsed @ path parsed"
    show ?thesis
    proof (cases "?n \<in> visited_urls s")
      case seen: True
      with "2.prems" True j p have "keyword_links_loop w u rest s keyword_links = Inr (s', links)"
        by (simp add: Let_def)
      from "2.IH"(2) [OF _ j p _ seen this] True obtain new ns kept where
        "links = keyword_links @ new" "s' = s\<lparr>visited_urls := visited_urls s \<union> set ns\<rparr>"
        "map (normalized w) (map snd new) = map Inr ns" "distinct ns"
        "set ns \<inter> visited_urls s = {}" "subseq kept ((a_tag, href) # rest)"
        "list_all2 (link_of w u) new kept"
        by auto
      then show ?thesis by blast
    next
      case fresh: False
      let ?s1 = "s\<lparr>visited_urls := insert ?n (visited_urls s)\<rparr>"
      let ?l = "(get_text_strip a_tag, full_url)"
      from "2.prems" True j p fresh
      have "keyword_links_loop w u rest ?s1 (keyword_links @ [?l]) = Inr (s', links)"
        by (simp add: Let_def)
      from "2.IH"(3) [OF _ j p _ fresh this] True obtain new ns kept where
        l: "links = (keyword_links @ [?l]) @ new"
        and s': "s' = ?s1\<lparr>visited_urls := visited_urls ?s1 \<union> set ns\<rparr>"
        and n: "map (normalized w) (map snd new) = map Inr ns" and d: "distinct ns"
        and i: "set ns \<inter> visited_urls ?s1 = {}"
        and k: "subseq kept rest" and a: "list_all2 (link_of w u) new kept"
        by auto
      have "links = keyword_links @ (?l # new)" using l by simp
      moreover have "s' = s\<lparr>visited_urls := visited_urls s \<union> set (?n # ns)\<rparr>"
        using s' by simp
      moreover have "map (normalized w) (map snd (?l # new)) = map Inr (?n # ns)"
        using n p by (simp add: normalized_def)
      moreover have "distinct (?n # ns)" using d i by auto
      moreover have "set (?n # ns) \<inter> visited_urls s = {}" using i fresh by auto
      moreover have "subseq ((a_tag, href) # kept) ((a_tag, href) # rest)" using k by simp
      moreover have "list_all2 (link_of w u) (?l # new) ((a_tag, href) # kept)"
        using a True j by (simp add: link_of_def)
      ultimately show ?thesis by blast
    qed
  qed
qed


lemma advances_refl: "advances w s s"
proof -
  have "fetched s = fetched s @ [] \<and> results s = results s @ log_records w (length (fetched s)) []"
    by simp
  then show ?thesis unfolding advances_def by blast
qed

lemma advances_trans:
  assumes "advances w s s'" and "advances w s' s''"
  shows "advances w s s''"
proof -
  from assms(1) obtain n1 where 1: "fetched s' = fetched s @ n1"
    "results s' = results s @ log_records w (length (fetched s)) n1"
    unfolding advances_def by blast
  from assms(2) obtain n2 where 2: "fetched s'' = fetched s' @ n2"
    "results s'' = results s' @ log_records w (length (fetched s')) n2"
    unfolding advances_def by blast
  have "fetched s'' = fetched s @ (n1 @ n2) \<and>
      results s'' = results s @ log_records w (length (fetched s)) (n1 @ n2)"
    using 1 2 by (simp add: log_records_append)
  then have "\<exists>new. fetched s'' = fetched s @ new \<and>
      results s'' = results s @ log_records w (length (fetched s)) new"
    by blast
  with assms show ?thesis unfolding advances_def by auto
qed

lemma known_keyword_requests:
  assumes "map (normalized w) (map snd links) = map Inr ns" and "set ns \<subseteq> visited_urls s"
  shows "list_all (known_when_fetched w) (keyword_requests s links)"
  using assms
proof (induction links arbitrary: ns)
  case Nil
  then show ?case by (simp add: keyword_requests_def)
next
  case (Cons l links)
  then obtain n ns' where ns: "ns = n # ns'" by (cases ns) auto
  obtain k u where l: "l = (k, u)" by (cases l)
  from Cons.prems ns l have "normalized w u = Inr n" "n \<in> visited_urls s"
    "map (normalized w) (map snd links) = map Inr ns'" "set ns' \<subseteq> visited_urls s"
    by auto
  with Cons.IH [of ns'] show ?case
    by (simp add: keyword_requests_def l)
qed

lemma scrape_letter_page_steps:
  assumes "scrape_letter_page w s letter u = Inr s'"
  shows "(\<exists>e. http w (length (fetched s)) u = Inl e \<and>
            s' = s\<lparr>fetched := fetched s @ [(LetterPage, u, visited_urls s)]\<rparr>) \<or>
         (\<exists>soup s1 links. http w (length (fetched s)) u = Inr soup \<and>
            keyword_links_loop w u (find_all_a_href soup)
              (s\<lparr>fetched := fetched s @ [(LetterPage, u, visited_urls s)]\<rparr>) [] = Inr (s1, links) \<and>
            s' = process_keywords w s1 links)"
  using assms
  by (auto simp: scrape_letter_page_def fetch_page_def Let_def split: sum.splits)

lemma scrape_letter_page_inv:
  assumes run: "scrape_letter_page w s letter u = Inr s'" and inv: "keyword_inv w s"
  shows "keyword_inv w s' \<and> advances w s s'"
proof -
  let ?s0 = "s\<lparr>fetched := fetched s @ [(LetterPage, u, visited_urls s)]\<rparr>"
  from inv obtain old where old: "map (normalized w) (keyword_fetches (fetched s)) = map Inr old"
    "distinct old" "set old = visited_urls s" and known: "list_all (known_when_fetched w) (fetched s)"
    unfolding keyword_inv_def by blast
  have step0: "keyword_inv w ?s0 \<and> advances w s ?s0"
  proof -
    have "fetched ?s0 = fetched s @ [(LetterPage, u, visited_urls s)] \<and>
        results ?s0 = results s @ log_records w (length (fetched s)) [(LetterPage, u, visited_urls s)]"
      by simp
    then have "advances w s ?s0" unfolding advances_def by (intro conjI exI) auto
    moreover have "keyword_inv w ?s0"
      unfolding keyword_inv_def using old known by (auto simp: keyword_fetches_append)
    ultimately show ?thesis by simp
  qed
  from scrape_letter_page_steps [OF run] show ?thesis
  proof (elim disjE exE conjE)
    fix e assume "s' = ?s0"
    with step0 show ?thesis by simp
  next
    fix soup s1 links
    assume loop: "keyword_links_loop w u (find_all_a_href soup) ?s0 [] = Inr (s1, links)"
      and s': "s' = process_keywords w s1 links"
    from keyword_links_loop_props [OF loop] obtain ns where
      s1: "s1 = ?s0\<lparr>visited_urls := visited_urls ?s0 \<union> set ns\<rparr>"
      and ns: "map (normalized w) (map snd links) = map Inr ns" "distinct ns"
        "set ns \<inter> visited_urls ?s0 = {}"
      by auto
    have f: "fetched s' = fetched s @ (LetterPage, u, visited_urls s) # keyword_requests s1 links"
      by (simp add: s' process_keywords_eq s1)
    have r: "results s' = results s @
        log_records w (length (fetched s)) ((LetterPage, u, visited_urls s) # keyword_requests s1 links)"
      by (simp add: s' process_keywords_eq s1)
    have v: "visited_urls s' = visited_urls s \<union> set ns"
      by (simp add: s' process_keywords_eq s1)
    have c: "index_url s' = index_url s \<and> output_file s' = output_file s"
      by (simp add: s' process_keywords_eq s1)
    have adv: "advances w s s'"
      unfolding advances_def using f r v c by blast
    have "map (normalized w) (keyword_fetches (fetched s')) = map Inr (old @ ns)"
      using old(1) ns(1) by (simp add: f keyword_fetches_append keyword_fetches_keyword_requests)
    moreover have "distinct (old @ ns)" using old(2,3) ns(2,3) by auto
    moreover have "set (old @ ns) = visited_urls s'" using old(3) v by auto
    moreover have "list_all (known_when_fetched w) (fetched s')"
      using known known_keyword_requests [OF ns(1), of s1] by (simp add: f s1)
    ultimately have "keyword_inv w s'" unfolding keyword_inv_def by blast
    with adv show ?thesis by simp
  qed
qed

lemma process_letters_inv:
  assumes "process_letters w s letters = Inr s'" and "keyword_inv w s"
  shows "keyword_inv w s' \<and> advances w s s'"
  using assms
proof (induction letters arbitrary: s)
  case Nil
  then show ?case by (simp add: advances_refl)
next
  case (Cons l letters)
  obtain letter letter_url where l: "l = (letter, letter_url)" by (cases l)
  from Cons.prems(1) l obtain s1 where 1: "scrape_letter_page w s letter letter_url = Inr s1"
    and 2: "process_letters w s1 letters = Inr s'"
    by (auto split: sum.splits)
  from scrape_letter_page_inv [OF 1 Cons.prems(2)] Cons.IH [OF 2]
  show ?case by (auto intro: advances_trans)
qed

lemma keyword_inv_init: "keyword_inv w (scraper_init iu out)"
  by (simp add: keyword_inv_def scraper_init_def)

lemma scrape_alphabet_index_inv:
  assumes run: "scrape_alphabet_index w s = Inr s'" and inv: "keyword_inv w s"
  shows "keyword_inv w s' \<and> advances w s s'"
proof -
  let ?s0 = "s\<lparr>fetched := fetched s @ [(IndexPage, index_url s, visited_urls s)]\<rparr>"
  have step0: "keyword_inv w ?s0 \<and> advances w s ?s0"
  proof -
    have "fetched ?s0 = fetched s @ [(IndexPage, index_url s, visited_urls s)] \<and>
        results ?s0 = results s @
          log_records w (length (fetched s)) [(IndexPage, index_url s, visited_urls s)]"
      by simp
    then have "advances w s ?s0" unfolding advances_def by (intro conjI exI) auto
    moreover have "keyword_inv w ?s0"
      using inv unfolding keyword_inv_def by (auto simp: keyword_fetches_append)
    ultimately show ?thesis by simp
  qed
  from run have "s' = ?s0 \<or> (\<exists>letters. process_letters w ?s0 letters = Inr s')"
    by (auto simp: scrape_alphabet_index_def fetch_page_def Let_def split: sum.splits)
  then show ?thesis
  proof
    assume "s' = ?s0"
    with step0 show ?thesis by simp
  next
    assume "\<exists>letters. process_letters w ?s0 letters = Inr s'"
    then obtain letters where "process_letters w ?s0 letters = Inr s'" ..
    from process_letters_inv [OF this] step0 show ?thesis
      by (auto intro: advances_trans)
  qed
qed

lemma letter_links_loop_eq:
  assumes "letter_links_loop w iu as acc = Inr ls"
  shows "\<exists>new. ls = acc @ new \<and> list_all2 (letter_of w iu) new (filter is_letter_link as)"
  using assms
proof (induction w iu as acc rule: letter_links_loop.induct)
  case (1 w iu letter_links)
  then show ?case by simp
next
  case (2 w iu a_tag href rest letter_links)
  show ?case
  proof (cases "is_letter_link (a_tag, href)")
    case False
    then have "letter_links_loop w iu rest letter_links = Inr ls"
      using "2.prems" by (auto simp: is_letter_link_def isalpha_def Let_def
          split: list.splits if_splits)
    moreover from False have "\<not> ((length (get_text_strip a_tag) = 1 \<and> isalpha (get_text_strip a_tag))
        \<or> get_text_strip a_tag = ''@'') \<or> \<not> (contains ''section4/'' href \<or> startswith href ''#'')"
      by (auto simp: is_letter_link_def isalpha_def split: list.splits)
    ultimately show ?thesis using "2.IH"(2,3) False by (auto simp: Let_def)
  next
    case True
    then have c: "(length (get_text_strip a_tag) = 1 \<and> isalpha (get_text_strip a_tag))
        \<or> get_text_strip a_tag = ''@''" and h: "contains ''section4/'' href \<or> startswith href ''#''"
      by (auto simp: is_letter_link_def isalpha_def py_isalpha_char_def split: list.splits)
    with "2.prems" obtain full_url where j: "urljoin w iu href = Inr full_url"
      and r: "letter_links_loop w iu rest (letter_links @ [(get_text_strip a_tag, full_url)]) = Inr ls"
      by (auto simp: Let_def split: sum.splits)
    from "2.IH"(1) [OF refl c h j r] obtain new where
      "ls = (letter_links @ [(get_text_strip a_tag, full_url)]) @ new"
      "list_all2 (letter_of w iu) new (filter is_letter_link rest)"
      by blast
    then have "ls = letter_links @ ((get_text_strip a_tag, full_url) # new) \<and>
        list_all2 (letter_of w iu) ((get_text_strip a_tag, full_url) # new)
          (filter is_letter_link ((a_tag, href) # rest))"
      using True j by (simp add: letter_of_def)
    then show ?thesis by blast
  qed
qed


lemma letter_links_loop_total:
  assumes "\<forall>a \<in> set (filter is_letter_link as). \<exists>x. urljoin w iu (snd a) = Inr x"
  shows "\<exists>ls. letter_links_loop w iu as acc = Inr ls"
  using assms
proof (induction w iu as acc rule: letter_links_loop.induct)
  case (1 w iu letter_links)
  then show ?case by simp
next
  case (2 w iu a_tag href rest letter_links)
  show ?case
  proof (cases "is_letter_link (a_tag, href)")
    case False
    then have n: "\<not> ((length (get_text_strip a_tag) = 1 \<and> isalpha (get_text_strip a_tag))
        \<or> get_text_strip a_tag = ''@'') \<or> \<not> (contains ''section4/'' href \<or> startswith href ''#'')"
      by (auto simp: is_letter_link_def isalpha_def split: list.splits)
    from "2.prems" False have
      "\<forall>a \<in> set (filter is_letter_link rest). \<exists>x. urljoin w iu (snd a) = Inr x"
      by simp
    with "2.IH"(2,3) n show ?thesis by (auto simp: Let_def)
  next
    case True
    then have c: "(length (get_text_strip a_tag) = 1 \<and> isalpha (get_text_strip a_tag))
        \<or> get_text_strip a_tag = ''@''" and h: "contains ''section4/'' href \<or> startswith href ''#''"
      by (auto simp: is_letter_link_def isalpha_def py_isalpha_char_def split: list.splits)
    from "2.prems" True obtain full_url where j: "urljoin w iu href = Inr full_url"
      and r: "\<forall>a \<in> set (filter is_letter_link rest). \<exists>x. urljoin w iu (snd a) = Inr x"
      by auto
    from "2.IH"(1) [OF refl c h j r] c h j show ?thesis by (simp add: Let_def)
  qed
qed

lemma keyword_links_loop_total:
  assumes "\<forall>b h. \<exists>x. urljoin w b h = Inr x" and "\<forall>x. \<exists>p. urlparse w x = Inr p"
  shows "\<exists>r. keyword_links_loop w u as s acc = Inr r"
  using assms
proof (induction w u as s acc rule: keyword_links_loop.induct)
  case (1 w u s keyword_links)
  then show ?case by simp
next
  case (2 w u a_tag href rest s keyword_links)
  from "2.prems" obtain full_url where j: "urljoin w u href = Inr full_url" by blast
  from "2.prems" obtain parsed where p: "urlparse w full_url = Inr parsed" by blast
  show ?case
    using "2.IH"(1) [OF _ "2.prems"] "2.IH"(2) [OF _ j p refl _ "2.prems"]
      "2.IH"(3) [OF _ j p refl _ "2.prems"] j p
    by (simp add: Let_def)
qed

lemma scrape_letter_page_total:
  assumes "\<forall>b h. \<exists>x. urljoin w b h = Inr x" and "\<forall>x. \<exists>p. urlparse w x = Inr p"
  shows "\<exists>s'. scrape_letter_page w s letter u = Inr s'"
proof (cases "http w (length (fetched s)) u")
  case (Inl e)
  then show ?thesis by (simp add: scrape_letter_page_def fetch_page_def)
next
  case (Inr soup)
  from keyword_links_loop_total [OF assms] obtain r where
    "keyword_links_loop w u (find_all_a_href soup)
       (s\<lparr>fetched := fetched s @ [(LetterPage, u, visited_urls s)]\<rparr>) [] = Inr r"
    by blast
  with Inr show ?thesis
    by (cases r) (simp add: scrape_letter_page_def fetch_page_def)
qed

lemma process_letters_total:
  assumes "\<forall>b h. \<exists>x. urljoin w b h = Inr x" and "\<forall>x. \<exists>p. urlparse w x = Inr p"
  shows "\<exists>s'. process_letters w s letters = Inr s'"
proof (induction letters arbitrary: s)
  case Nil
  then show ?case by simp
next
  case (Cons l letters)
  obtain letter letter_url where l: "l = (letter, letter_url)" by (cases l)
  from scrape_letter_page_total [OF assms] obtain s1 where
    "scrape_letter_page w s letter letter_url = Inr s1" by blast
  with Cons.IH [of s1] l show ?case by simp
qed

lemma scrape_alphabet_index_total:
  assumes "\<forall>b h. \<exists>x. urljoin w b h = Inr x" and "\<forall>x. \<exists>p. urlparse w x = Inr p"
  shows "\<exists>s'. scrape_alphabet_index w s = Inr s'"
proof (cases "http w (length (fetched s)) (index_url s)")
  case (Inl e)
  then show ?thesis by (simp add: scrape_alphabet_index_def fetch_page_def)
next
  case (Inr soup)
  from assms(1) have "\<forall>a \<in> set (filter is_letter_link (find_all_a_href soup)).
      \<exists>x. urljoin w (index_url s) (snd a) = Inr x"
    by blast
  from letter_links_loop_total [OF this] obtain ls where
    "letter_links_loop w (index_url s) (find_all_a_href soup) [] = Inr ls" by blast
  with Inr process_letters_total [OF assms] show ?thesis
    by (simp add: scrape_alphabet_index_def fetch_page_def)
qed














lemma url_page_content: "url (page_content u soup) = u"
  by (simp add: page_content_def Let_def split: option.splits)

lemma log_records_member:
  "r \<in> set (log_records w i log) \<longleftrightarrow>
     (\<exists>j u V soup. j < length log \<and> log ! j = (KeywordPage, u, V) \<and>
        http w (i + j) u = Inr soup \<and> r = page_content u soup)"
proof (induction log arbitrary: i)
  case Nil
  then show ?case by simp
next
  case (Cons q log)
  obtain k u V where q: "q = (k, u, V)" by (cases q)
  have here: "r \<in> set (request_records w i (k, u)) \<longleftrightarrow>
      (\<exists>soup. k = KeywordPage \<and> http w i u = Inr soup \<and> r = page_content u soup)"
    by (cases k; cases "http w i u") auto
  have later: "r \<in> set (log_records w (Suc i) log) \<longleftrightarrow>
     (\<exists>j u V soup. j < length log \<and> log ! j = (KeywordPage, u, V) \<and>
        http w (i + Suc j) u = Inr soup \<and> r = page_content u soup)"
    using Cons.IH [of "Suc i"] by simp
  show ?case
  proof
    assume "r \<in> set (log_records w i (q # log))"
    then consider "r \<in> set (request_records w i (k, u))" | "r \<in> set (log_records w (Suc i) log)"
      by (auto simp: q)
    then show "\<exists>j u V soup. j < length (q # log) \<and> (q # log) ! j = (KeywordPage, u, V) \<and>
        http w (i + j) u = Inr soup \<and> r = page_content u soup"
    proof cases
      case 1
      with here obtain soup where "k = KeywordPage" "http w i u = Inr soup" "r = page_content u soup"
        by blast
      then have "0 < length (q # log) \<and> (q # log) ! 0 = (KeywordPage, u, V) \<and>
          http w (i + 0) u = Inr soup \<and> r = page_content u soup"
        by (simp add: q)
      then show ?thesis by blast
    next
      case 2
      with later obtain j u' V' soup where "j < length log" "log ! j = (KeywordPage, u', V')"
        "http w (i + Suc j) u' = Inr soup" "r = page_content u' soup"
        by blast
      then have "Suc j < length (q # log) \<and> (q # log) ! Suc j = (KeywordPage, u', V') \<and>
          http w (i + Suc j) u' = Inr soup \<and> r = page_content u' soup"
        by simp
      then show ?thesis by blast
    qed
  next
    assume "\<exists>j u V soup. j < length (q # log) \<and> (q # log) ! j = (KeywordPage, u, V) \<and>
        http w (i + j) u = Inr soup \<and> r = page_content u soup"
    then obtain j u' V' soup where j: "j < length (q # log)" "(q # log) ! j = (KeywordPage, u', V')"
      "http w (i + j) u' = Inr soup" "r = page_content u' soup"
      by blast
    show "r \<in> set (log_records w i (q # log))"
    proof (cases j)
      case 0
      with j q have "k = KeywordPage \<and> http w i u = Inr soup \<and> r = page_content u soup"
        by simp
      with here show ?thesis by (auto simp: q)
    next
      case (Suc j')
      with j have "j' < length log \<and> log ! j' = (KeywordPage, u', V') \<and>
        http w (i + Suc j') u' = Inr soup \<and> r = page_content u' soup"
        by simp
      with later have "r \<in> set (log_records w (Suc i) log)" by blast
      then show ?thesis by (simp add: q)
    qed
  qed
qed

lemma count_records_le:
  "length (filter (\<lambda>r. normalized w (url r) = Inr n) (log_records w i log)) \<le>
   length (filter (\<lambda>u. normalized w u = Inr n) (keyword_fetches log))"
proof (induction log arbitrary: i)
  case Nil
  then show ?case by simp
next
  case (Cons q log)
  obtain k u V where q: "q = (k, u, V)" by (cases q)
  show ?case
    using Cons.IH [of "Suc i"]
    by (cases k; cases "http w i u") (auto simp: q url_page_content)
qed

lemma at_most_one_of_distinct:
  assumes "map f xs = map Inr ns" and "distinct ns"
  shows "length (filter (\<lambda>x. f x = Inr n) xs) \<le> 1"
proof -
  have "length (filter (\<lambda>x. f x = Inr n) xs) = length (filter (\<lambda>y. y = Inr n) (map f xs))"
    by (simp add: filter_map comp_def)
  also have "\<dots> = length (filter (\<lambda>m. m = n) ns)"
    by (simp add: assms(1) filter_map comp_def)
  also have "\<dots> \<le> 1"
    using assms(2) by (induction ns) (auto simp: filter_empty_conv)
  finally show ?thesis .
qed

lemma run_from_init:
  assumes "scrape_alphabet_index w (scraper_init iu out) = Inr s"
  shows "keyword_inv w s \<and> results s = log_records w 0 (fetched s)"
proof -
  from scrape_alphabet_index_inv [OF assms keyword_inv_init]
  have "keyword_inv w s" and "advances w (scraper_init iu out) s" by simp_all
  then show ?thesis by (auto simp: advances_def scraper_init_def)
qed



lemma site_run: "scrape_alphabet_index site site_start = Inr site_final"
  by code_simp

section \<open>Claims about the crawl\<close>

text \<open>
  C1, as stated: for any two discovered keyword links that normalize to the same
  host and path, exactly one PageRecord is produced. It fails when the page cannot be
  fetched: on the example site both letter pages link to \<open>s4g002.html\<close>, the two links
  normalize to the same URL, the one request for it answers 404, and the results hold
  no record for it.
\<close>

theorem failed_page_no_record_counterexample:
  "scrape_alphabet_index site site_start = Inr site_final \<and>
   (anchor ''/section4/s4g002.html'' ''ACLASS()'', ''/section4/s4g002.html'')
     \<in> set (find_all_a_href site_letter_a) \<and>
   (anchor ''/section4/s4g002.html#retry'' ''ACLASS()'', ''/section4/s4g002.html#retry'')
     \<in> set (find_all_a_href site_letter_at) \<and>
   urljoin site ''https://hackfox.github.io/section4/a.html'' ''/section4/s4g002.html'' =
     Inr ''https://hackfox.github.io/section4/s4g002.html'' \<and>
   urljoin site ''https://hackfox.github.io/section4/at.html'' ''/section4/s4g002.html#retry'' =
     Inr ''https://hackfox.github.io/section4/s4g002.html#retry'' \<and>
   normalized site ''https://hackfox.github.io/section4/s4g002.html'' =
     Inr ''hackfox.github.io/section4/s4g002.html'' \<and>
   normalized site ''https://hackfox.github.io/section4/s4g002.html#retry'' =
     Inr ''hackfox.github.io/section4/s4g002.html'' \<and>
   filter (\<lambda>r. normalized site (url r) = Inr ''hackfox.github.io/section4/s4g002.html'')
     (results site_final) = []"
  by code_simp

text \<open>
  C1, amended: in a run that completes, for every normalized URL \<open>n\<close> the results hold at
  most one PageRecord whose URL normalizes to \<open>n\<close>, however many keyword links resolve
  to it and whichever letter pages show them; they hold exactly one if and only if a
  request for a keyword page whose URL normalizes to \<open>n\<close> succeeded.
\<close>

theorem one_record_per_normalized_url:
  assumes "scrape_alphabet_index w (scraper_init iu out) = Inr s"
  shows "length (filter (\<lambda>r. normalized w (url r) = Inr n) (results s)) \<le> 1 \<and>
     (length (filter (\<lambda>r. normalized w (url r) = Inr n) (results s)) = 1 \<longleftrightarrow>
        (\<exists>i u V soup. i < length (fetched s) \<and> fetched s ! i = (KeywordPage, u, V) \<and>
           normalized w u = Inr n \<and> http w i u = Inr soup))"
proof -
  let ?P = "\<lambda>r. normalized w (url r) = Inr n"
  from run_from_init [OF assms] have inv: "keyword_inv w s"
    and res: "results s = log_records w 0 (fetched s)" by simp_all
  from inv obtain ns where ns: "map (normalized w) (keyword_fetches (fetched s)) = map Inr ns"
    "distinct ns" unfolding keyword_inv_def by blast
  have le: "length (filter ?P (results s)) \<le> 1"
    using count_records_le [of w n 0 "fetched s"] at_most_one_of_distinct [OF ns, of n]
    by (simp add: res)
  have "0 < length (filter ?P (results s)) \<longleftrightarrow> (\<exists>r \<in> set (results s). ?P r)"
    by (simp add: filter_empty_conv)
  also have "\<dots> \<longleftrightarrow> (\<exists>i u V soup. i < length (fetched s) \<and> fetched s ! i = (KeywordPage, u, V) \<and>
           normalized w u = Inr n \<and> http w i u = Inr soup)"
  proof
    assume "\<exists>r \<in> set (results s). ?P r"
    then obtain r where "r \<in> set (log_records w 0 (fetched s))" and P: "?P r"
      by (auto simp: res)
    then obtain j u V soup where "j < length (fetched s)" "fetched s ! j = (KeywordPage, u, V)"
      "http w (0 + j) u = Inr soup" "r = page_content u soup"
      unfolding log_records_member by blast
    with P have "j < length (fetched s) \<and> fetched s ! j = (KeywordPage, u, V) \<and>
        normalized w u = Inr n \<and> http w j u = Inr soup"
      by (simp add: url_page_content)
    then show "\<exists>i u V soup. i < length (fetched s) \<and> fetched s ! i = (KeywordPage, u, V) \<and>
           normalized w u = Inr n \<and> http w i u = Inr soup"
      by blast
  next
    assume "\<exists>i u V soup. i < length (fetched s) \<and> fetched s ! i = (KeywordPage, u, V) \<and>
           normalized w u = Inr n \<and> http w i u = Inr soup"
    then obtain i u V soup where i: "i < length (fetched s)" "fetched s ! i = (KeywordPage, u, V)"
      "normalized w u = Inr n" "http w i u = Inr soup"
      by blast
    then have "i < length (fetched s) \<and> fetched s ! i = (KeywordPage, u, V) \<and>
        http w (0 + i) u = Inr soup \<and> page_content u soup = page_content u soup"
      by simp
    then have "page_content u soup \<in> set (log_records w 0 (fetched s))"
      unfolding log_records_member by blast
    moreover have "?P (page_content u soup)"
      using i(3) by (simp add: url_page_content)
    ultimately show "\<exists>r \<in> set (results s). ?P r"
      unfolding res by (rule bexI [rotated])
  qed
  finally have pos: "0 < length (filter ?P (results s)) \<longleftrightarrow>
      (\<exists>i u V soup. i < length (fetched s) \<and> fetched s ! i = (KeywordPage, u, V) \<and>
           normalized w u = Inr n \<and> http w i u = Inr soup)" .
  have "length (filter ?P (results s)) = 1 \<longleftrightarrow> 0 < length (filter ?P (results s))"
    using le by linarith
  with pos le show ?thesis by blast
qed

theorem one_record_per_normalized_url_witness:
  "scrape_alphabet_index site
     (scraper_init ''https://hackfox.github.io/section4/'' ''vfp_keywords_documentation.json'') =
     Inr site_final \<and>
   normalized site ''https://hackfox.github.io/section4/s4g001.html?ref=a#top'' =
     Inr ''hackfox.github.io/section4/s4g001.html'' \<and>
   length (filter (\<lambda>r. normalized site (url r) = Inr ''hackfox.github.io/section4/s4g001.html'')
     (results site_final)) = 1"
proof -
  have run: "scrape_alphabet_index site
     (scraper_init ''https://hackfox.github.io/section4/'' ''vfp_keywords_documentation.json'') =
     Inr site_final"
    using site_run by (simp add: site_start_def)
  have n: "normalized site ''https://hackfox.github.io/section4/s4g001.html?ref=a#top'' =
     Inr ''hackfox.github.io/section4/s4g001.html''"
    by code_simp
  have "2 < length (fetched site_final) \<and>
      fetched site_final ! 2 =
        (KeywordPage, ''https://hackfox.github.io/section4/s4g001.html'', site_visited) \<and>
      normalized site ''https://hackfox.github.io/section4/s4g001.html'' =
        Inr ''hackfox.github.io/section4/s4g001.html'' \<and>
      http site 2 ''https://hackfox.github.io/section4/s4g001.html'' = Inr abs_page"
    by code_simp
  then have "\<exists>i u V soup. i < length (fetched site_final) \<and>
      fetched site_final ! i = (KeywordPage, u, V) \<and>
      normalized site u = Inr ''hackfox.github.io/section4/s4g001.html'' \<and>
      http site i u = Inr soup"
    by blast
  with one_record_per_normalized_url [OF run, of "''hackfox.github.io/section4/s4g001.html''"]
  have "length (filter (\<lambda>r. normalized site (url r) = Inr ''hackfox.github.io/section4/s4g001.html'')
     (results site_final)) = 1"
    by blast
  with run n show ?thesis by blast
qed

text \<open>
  C3: a hyperlink of the index page is accepted as a letter link if and only if its
  trimmed anchor text is exactly one alphabetic character or exactly \<open>@\<close> and its href
  contains \<open>section4/\<close> or starts with \<open>#\<close>: the letter links found are, in order, the
  anchors that satisfy \<open>is_letter_link\<close>, each with its text and its joined URL; the loop
  returns them whenever \<open>urljoin\<close> raises on none of these; and an anchor with a text of
  more than one character is never one of them.
\<close>

theorem letter_link_detection:
  "(letter_links_loop w iu as [] = Inr ls \<longrightarrow>
      list_all2 (letter_of w iu) ls (filter is_letter_link as)) \<and>
   ((\<forall>a \<in> set (filter is_letter_link as). \<exists>x. urljoin w iu (snd a) = Inr x) \<longrightarrow>
      (\<exists>ls. letter_links_loop w iu as [] = Inr ls)) \<and>
   (1 < length (get_text_strip a_tag) \<longrightarrow> \<not> is_letter_link (a_tag, href))"
proof (intro conjI impI)
  assume "letter_links_loop w iu as [] = Inr ls"
  from letter_links_loop_eq [OF this]
  show "list_all2 (letter_of w iu) ls (filter is_letter_link as)" by simp
next
  assume "\<forall>a \<in> set (filter is_letter_link as). \<exists>x. urljoin w iu (snd a) = Inr x"
  then show "\<exists>ls. letter_links_loop w iu as [] = Inr ls"
    by (rule letter_links_loop_total)
next
  assume "1 < length (get_text_strip a_tag)"
  then show "\<not> is_letter_link (a_tag, href)"
    by (auto simp: is_letter_link_def split: list.splits)
qed

theorem letter_link_detection_witness:
  "letter_links_loop site ''https://hackfox.github.io/section4/'' (find_all_a_href site_index) [] =
     Inr [(''A'', ''https://hackfox.github.io/section4/a.html''),
          (''@'', ''https://hackfox.github.io/section4/at.html'')] \<and>
   filter is_letter_link (find_all_a_href site_index) =
     [(anchor ''/section4/a.html'' ''A'', ''/section4/a.html''),
      (anchor ''/section4/at.html'' '' @ '', ''/section4/at.html'')] \<and>
   list_all2 (letter_of site ''https://hackfox.github.io/section4/'')
     [(''A'', ''https://hackfox.github.io/section4/a.html''),
      (''@'', ''https://hackfox.github.io/section4/at.html'')]
     (filter is_letter_link (find_all_a_href site_index)) \<and>
   1 < length (get_text_strip (anchor ''/section4/a.html'' ''All'')) \<and>
   \<not> is_letter_link (anchor ''/section4/a.html'' ''All'', ''/section4/a.html'')"
proof -
  let ?ls = "[(''A'', ''https://hackfox.github.io/section4/a.html''),
              (''@'', ''https://hackfox.github.io/section4/at.html'')]"
  have loop: "letter_links_loop site ''https://hackfox.github.io/section4/''
      (find_all_a_href site_index) [] = Inr ?ls"
    by code_simp
  have flt: "filter is_letter_link (find_all_a_href site_index) =
     [(anchor ''/section4/a.html'' ''A'', ''/section4/a.html''),
      (anchor ''/section4/at.html'' '' @ '', ''/section4/at.html'')]"
    by code_simp
  have long: "1 < length (get_text_strip (anchor ''/section4/a.html'' ''All''))"
    by code_simp
  from letter_link_detection [of site "''https://hackfox.github.io/section4/''"
      "find_all_a_href site_index" ?ls "anchor ''/section4/a.html'' ''All''" "''/section4/a.html''"]
    loop long
  have "list_all2 (letter_of site ''https://hackfox.github.io/section4/'') ?ls
      (filter is_letter_link (find_all_a_href site_index)) \<and>
    \<not> is_letter_link (anchor ''/section4/a.html'' ''All'', ''/section4/a.html'')"
    by blast
  with loop flt long show ?thesis by blast
qed









section \<open>The result writer: lemmas\<close>

lemma is_digit_digit: "k < 10 \<Longrightarrow> is_digit (digit k)"
  by (simp add: is_digit_def digit_def)

lemma show_nat_1: "n < 10 \<Longrightarrow> show_nat n = [digit n]"
  by (simp add: show_nat.simps)

lemma show_nat_2: "10 \<le> n \<Longrightarrow> n < 100 \<Longrightarrow> show_nat n = [digit (n div 10), digit (n mod 10)]"
  by (subst show_nat.simps) (simp add: show_nat_1)

lemma show_nat_3:
  "100 \<le> n \<Longrightarrow> n < 1000 \<Longrightarrow>
     show_nat n = [digit (n div 100), digit (n div 10 mod 10), digit (n mod 10)]"
  by (subst show_nat.simps) (simp add: show_nat_2 div_mult2_eq [symmetric])

lemma show_nat_4:
  "1000 \<le> n \<Longrightarrow> n < 10000 \<Longrightarrow>
     show_nat n =
       [digit (n div 1000), digit (n div 100 mod 10), digit (n div 10 mod 10), digit (n mod 10)]"
  by (subst show_nat.simps) (simp add: show_nat_3 div_mult2_eq [symmetric])

lemma pad2_digits:
  assumes "n < 100"
  shows "\<exists>a b. pad2 n = [a, b] \<and> is_digit a \<and> is_digit b"
proof (cases "n < 10")
  case True
  then have "pad2 n = [CHR ''0'', digit n]" by (simp add: pad2_def show_nat_1)
  moreover have "is_digit CHR ''0''" by (simp add: is_digit_def)
  ultimately show ?thesis using True by (simp add: is_digit_digit)
next
  case False
  with assms have "pad2 n = [digit (n div 10), digit (n mod 10)]"
    by (simp add: pad2_def show_nat_2)
  moreover from assms have "n div 10 < 10" by simp
  ultimately show ?thesis by (simp add: is_digit_digit)
qed

lemma year_digits:
  assumes "1000 \<le> n" and "n \<le> 9999"
  shows "\<exists>a b c d. show_nat n = [a, b, c, d] \<and> is_digit a \<and> is_digit b \<and> is_digit c \<and> is_digit d"
proof -
  from assms have "n div 1000 < 10" by simp
  with assms show ?thesis by (simp add: show_nat_4 is_digit_digit)
qed

lemma strftime_shape: "valid_time t \<Longrightarrow> is_timestamp (strftime t)"
proof -
  assume v: "valid_time t"
  from v obtain y1 y2 y3 y4 where y: "show_nat (tm_year t) = [y1, y2, y3, y4]"
    "is_digit y1" "is_digit y2" "is_digit y3" "is_digit y4"
    using year_digits [of "tm_year t"] by (auto simp: valid_time_def)
  from v obtain m1 m2 where m: "pad2 (tm_mon t) = [m1, m2]" "is_digit m1" "is_digit m2"
    using pad2_digits [of "tm_mon t"] by (auto simp: valid_time_def)
  from v obtain a1 a2 where a: "pad2 (tm_mday t) = [a1, a2]" "is_digit a1" "is_digit a2"
    using pad2_digits [of "tm_mday t"] by (auto simp: valid_time_def)
  from v obtain h1 h2 where h: "pad2 (tm_hour t) = [h1, h2]" "is_digit h1" "is_digit h2"
    using pad2_digits [of "tm_hour t"] by (auto simp: valid_time_def)
  from v obtain i1 i2 where i: "pad2 (tm_min t) = [i1, i2]" "is_digit i1" "is_digit i2"
    using pad2_digits [of "tm_min t"] by (auto simp: valid_time_def)
  from v obtain s1 s2 where s: "pad2 (tm_sec t) = [s1, s2]" "is_digit s1" "is_digit s2"
    using pad2_digits [of "tm_sec t"] by (auto simp: valid_time_def)
  show ?thesis
    by (simp add: strftime_def y m a h i s)
qed

lemma run_steps:
  assumes "run w now d iu out fs = (fs', Inr s)"
  shows "scrape_alphabet_index w (scraper_init iu out) = Inr s \<and>
     save_results now d s fs = (fs', Inr ())"
  using assms by (auto simp: run_def split: sum.splits prod.splits)

lemma run_configuration:
  assumes "scrape_alphabet_index w (scraper_init iu out) = Inr s"
  shows "index_url s = iu \<and> output_file s = out"
  using scrape_alphabet_index_inv [OF assms keyword_inv_init]
  by (simp add: advances_def scraper_init_def)

lemma save_results_ok:
  assumes "save_results now d s fs = (fs', Inr u)"
  shows "fs' = fs(output_file s \<mapsto> json_dumps (run_archive now s))"
  using assms by (auto simp: save_results_def Let_def split: disk.splits if_splits)

lemma save_results_failed:
  assumes "save_results now d s fs = (fs', Inl e)"
  shows "e = OSError \<and>
     (d = CannotOpen \<and> fs' = fs \<or>
      (\<exists>n. d = FailsAfter n \<and> n < length (json_dumps (run_archive now s)) \<and>
         fs' = fs(output_file s \<mapsto> take n (json_dumps (run_archive now s)))))"
  using assms by (auto simp: save_results_def Let_def split: disk.splits if_splits)

lemma site_written: "run site site_time Accepts ''https://hackfox.github.io/section4/''
     ''vfp_keywords_documentation.json'' Map.empty =
   ([''vfp_keywords_documentation.json'' \<mapsto> json_dumps (run_archive site_time site_final)],
    Inr site_final)"
proof -
  have c: "scrape_alphabet_index site
      (scraper_init ''https://hackfox.github.io/section4/'' ''vfp_keywords_documentation.json'') =
      Inr site_final"
    using site_run by (simp add: site_start_def)
  have o: "output_file site_final = ''vfp_keywords_documentation.json''"
    by (simp add: site_final_def)
  show ?thesis
    by (simp add: run_def c save_results_def Let_def o)
qed

section \<open>Claims about the result writer\<close>

text \<open>
  C7: after a run that completes, the output file holds the serialization of a dictionary
  whose keys are, in this order, \<open>base_url\<close> (the index URL the scraper was made with),
  \<open>total_keywords\<close>, \<open>scraped_date\<close> (of the shape \<open>YYYY-MM-DD HH:MM:SS\<close> for a local
  time with a year of four digits) and \<open>results\<close>, and \<open>total_keywords\<close> is the length of
  the \<open>results\<close> array, which holds the records of the scraper.
\<close>

theorem run_archive_keys:
  assumes "run w now d iu out fs = (fs', Inr s)" and "valid_time now"
  shows "\<exists>date rs.
     fs' out = Some (json_dumps (PDict [(''base_url'', PStr iu),
                                       (''total_keywords'', PInt (int (length rs))),
                                       (''scraped_date'', PStr date),
                                       (''results'', PList rs)])) \<and>
     is_timestamp date \<and> rs = map record_dict (results s)"
proof -
  from run_steps [OF assms(1)] have c: "scrape_alphabet_index w (scraper_init iu out) = Inr s"
    and w: "save_results now d s fs = (fs', Inr ())" by simp_all
  from run_configuration [OF c] have cfg: "index_url s = iu" "output_file s = out" by simp_all
  from save_results_ok [OF w] cfg
  have "fs' out = Some (json_dumps (PDict [(''base_url'', PStr iu),
       (''total_keywords'', PInt (int (length (map record_dict (results s))))),
       (''scraped_date'', PStr (strftime now)),
       (''results'', PList (map record_dict (results s)))]))"
    by (simp add: run_archive_def)
  with strftime_shape [OF assms(2)] show ?thesis by blast
qed

theorem run_archive_keys_witness:
  "run site site_time Accepts ''https://hackfox.github.io/section4/''
     ''vfp_keywords_documentation.json'' Map.empty =
     ([''vfp_keywords_documentation.json'' \<mapsto> json_dumps (run_archive site_time site_final)],
      Inr site_final) \<and>
   valid_time site_time \<and> strftime site_time = ''2026-11-04 09:05:00'' \<and>
   length (results site_final) = 3 \<and>
   (\<exists>date rs.
     [''vfp_keywords_documentation.json'' \<mapsto> json_dumps (run_archive site_time site_final)]
       ''vfp_keywords_documentation.json'' =
       Some (json_dumps (PDict [(''base_url'', PStr ''https://hackfox.github.io/section4/''),
                                (''total_keywords'', PInt (int (length rs))),
                                (''scraped_date'', PStr date),
                                (''results'', PList rs)])) \<and>
     is_timestamp date \<and> rs = map record_dict (results site_final))"
proof -
  have v: "valid_time site_time" by (simp add: valid_time_def site_time_def)
  have t: "strftime site_time = ''2026-11-04 09:05:00''" by code_simp
  have n: "length (results site_final) = 3" by (simp add: site_final_def)
  from run_archive_keys [OF site_written v] site_written v t n
  show ?thesis by (intro conjI)
qed

text \<open>
  C5, as stated: when the write fails partway, no partial archive is left at the output
  path. It fails: the file is opened for writing in place and the text is written into
  it piece by piece, so a write that fails after forty characters leaves these forty
  characters where the previous archive was.
\<close>

theorem partial_archive_counterexample:
  "run site site_time (FailsAfter 40) ''https://hackfox.github.io/section4/''
     ''vfp_keywords_documentation.json'' [''vfp_keywords_documentation.json'' \<mapsto> ''{}''] =
     ([''vfp_keywords_documentation.json'' \<mapsto>
         ''{'' @ [CHR 0x0A] @ ''  '' @ [CHR 0x22] @ ''base_url'' @ [CHR 0x22] @ '': '' @ [CHR 0x22] @
         ''https://hackfox.github.''],
      Inl OSError)"
proof -
  have c: "scrape_alphabet_index site
      (scraper_init ''https://hackfox.github.io/section4/'' ''vfp_keywords_documentation.json'') =
      Inr site_final"
    using site_run by (simp add: site_start_def)
  have o: "output_file site_final = ''vfp_keywords_documentation.json''"
    by (simp add: site_final_def)
  have l: "40 < length (json_dumps (run_archive site_time site_final))"
    by code_simp
  have p: "take 40 (json_dumps (run_archive site_time site_final)) =
      ''{'' @ [CHR 0x0A] @ ''  '' @ [CHR 0x22] @ ''base_url'' @ [CHR 0x22] @ '': '' @ [CHR 0x22] @
         ''https://hackfox.github.''"
    by code_simp
  have w: "save_results site_time (FailsAfter 40) site_final
      [''vfp_keywords_documentation.json'' \<mapsto> ''{}''] =
     ([''vfp_keywords_documentation.json'' \<mapsto>
         take 40 (json_dumps (run_archive site_time site_final))], Inl OSError)"
    by (simp add: save_results_def Let_def o l)
  have "run site site_time (FailsAfter 40) ''https://hackfox.github.io/section4/''
     ''vfp_keywords_documentation.json'' [''vfp_keywords_documentation.json'' \<mapsto> ''{}''] =
     ([''vfp_keywords_documentation.json'' \<mapsto>
         take 40 (json_dumps (run_archive site_time site_final))], Inl OSError)"
    by (simp add: run_def c w)
  then show ?thesis by (simp only: p)
qed

text \<open>
  C5, amended: when the write of a run fails, the exception is \<open>OSError\<close>, nothing
  catches it and it ends the run; no file other than the output file is changed; and
  the output path holds either the file as it was, when it could not be opened, or a
  proper prefix of the serialized archive in place of the previous content. The write is
  not atomic.
\<close>

theorem failed_write_leaves_prefix:
  assumes "scrape_alphabet_index w (scraper_init iu out) = Inr s"
    and "save_results now d s fs = (fs', Inl e)"
  shows "run w now d iu out fs = (fs', Inl e) \<and> e = OSError \<and>
     (\<forall>p. p \<noteq> out \<longrightarrow> fs' p = fs p) \<and>
     (d = CannotOpen \<and> fs' out = fs out \<or>
      (\<exists>n. d = FailsAfter n \<and> n < length (json_dumps (run_archive now s)) \<and>
         fs' out = Some (take n (json_dumps (run_archive now s)))))"
proof -
  from run_configuration [OF assms(1)] have out: "output_file s = out" by simp
  have "run w now d iu out fs = (fs', Inl e)"
    by (simp add: run_def assms)
  moreover from save_results_failed [OF assms(2)] out
  have "e = OSError \<and> (\<forall>p. p \<noteq> out \<longrightarrow> fs' p = fs p) \<and>
     (d = CannotOpen \<and> fs' out = fs out \<or>
      (\<exists>n. d = FailsAfter n \<and> n < length (json_dumps (run_archive now s)) \<and>
         fs' out = Some (take n (json_dumps (run_archive now s)))))"
    by auto
  ultimately show ?thesis by simp
qed

theorem failed_write_leaves_prefix_witness:
  "scrape_alphabet_index site
     (scraper_init ''https://hackfox.github.io/section4/'' ''vfp_keywords_documentation.json'') =
     Inr site_final \<and>
   save_results site_time (FailsAfter 40) site_final
     [''vfp_keywords_documentation.json'' \<mapsto> ''{}'', ''notes.txt'' \<mapsto> ''keep''] =
     ([''vfp_keywords_documentation.json'' \<mapsto>
         take 40 (json_dumps (run_archive site_time site_final)), ''notes.txt'' \<mapsto> ''keep''],
      Inl OSError) \<and>
   40 < length (json_dumps (run_archive site_time site_final)) \<and>
   run site site_time (FailsAfter 40) ''https://hackfox.github.io/section4/''
     ''vfp_keywords_documentation.json''
     [''vfp_keywords_documentation.json'' \<mapsto> ''{}'', ''notes.txt'' \<mapsto> ''keep''] =
     ([''vfp_keywords_documentation.json'' \<mapsto>
         take 40 (json_dumps (run_archive site_time site_final)), ''notes.txt'' \<mapsto> ''keep''],
      Inl OSError)"
proof -
  let ?fs = "[''vfp_keywords_documentation.json'' \<mapsto> ''{}'', ''notes.txt'' \<mapsto> ''keep'']"
  have c: "scrape_alphabet_index site
      (scraper_init ''https://hackfox.github.io/section4/'' ''vfp_keywords_documentation.json'') =
      Inr site_final"
    using site_run by (simp add: site_start_def)
  have o: "output_file site_final = ''vfp_keywords_documentation.json''"
    by (simp add: site_final_def)
  have l: "40 < length (json_dumps (run_archive site_time site_final))"
    by code_simp
  have w: "save_results site_time (FailsAfter 40) site_final ?fs =
     ([''vfp_keywords_documentation.json'' \<mapsto>
         take 40 (json_dumps (run_archive site_time site_final)), ''notes.txt'' \<mapsto> ''keep''],
      Inl OSError)"
    by (simp add: save_results_def Let_def o l fun_upd_twist)
  from failed_write_leaves_prefix [OF c w] c w l show ?thesis by simp
qed

section \<open>The result writer: reading back what was written\<close>































































end
